theory Spec2Isabelle
  imports Main "HOL-Library.Word" "HOL-Library.Sublist"
begin

section \<open>Strings and characters of the host language\<close>

text \<open>
  A JavaScript string is a sequence of UTF-16 code units, and \<^verbatim>\<open>length\<close> counts them.
  The pattern of \<^verbatim>\<open>autolink.js\<close> mentions code units up to \<^verbatim>\<open>\uffff\<close>, so a code
  unit is a 16-bit word and not an 8-bit \<^typ>\<open>char\<close>. \<open>js\<close> embeds an ASCII literal.
\<close>

type_synonym code_unit = "16 word"
type_synonym jsstring = "code_unit list"

definition js :: "string \<Rightarrow> jsstring" where
  "js s = map (\<lambda>c. of_char c) s"

text \<open>
  \<^verbatim>\<open>text[ i ]\<close>: reading a string by index gives \<^verbatim>\<open>undefined\<close> (here \<open>None\<close>)
  outside \<open>0 .. length - 1\<close>; it never raises.
\<close>

definition char_at :: "jsstring \<Rightarrow> int \<Rightarrow> code_unit option" where
  "char_at text i = (if 0 \<le> i \<and> i < int (length text) then Some (text ! nat i) else None)"

text \<open>
  \<^verbatim>\<open>text.substr( 0, len )\<close>: the first \<open>len\<close> code units; a negative length
  gives the empty string.
\<close>

definition substr0 :: "jsstring \<Rightarrow> int \<Rightarrow> jsstring" where
  "substr0 text len = (if len \<le> 0 then [] else take (nat len) text)"

text \<open>
  The character tests of the regular-expression engine. \<open>is_white_space\<close> is the
  class \<^verbatim>\<open>\s\<close> (white space and line terminators of ECMAScript), and \<^verbatim>\<open>.\<close>
  excludes exactly the line terminators.

  With the flag \<^verbatim>\<open>i\<close> two code units are compared after canonicalisation, the engine's
  upper-case mapping. That mapping takes ASCII letters to ASCII letters and never takes
  a code unit from \<^verbatim>\<open>U+0080\<close> on to one below it. Every character and range of this
  pattern lies below \<^verbatim>\<open>U+0080\<close>, except the range \<^verbatim>\<open>\u00a1-\uffff\<close>, and no case
  mapping leads from inside that range to the code units between \<^verbatim>\<open>U+0080\<close> and
  \<^verbatim>\<open>U+00A0\<close>, which have no case. So for this pattern it is enough to write the mapping
  out for the ASCII letters, as \<open>to_upper\<close> does. A code unit is in a class when a member
  of the class has the same canonical form; \<open>class_mem\<close> tests it on the code unit
  itself and its two case variants.
\<close>

definition is_line_terminator :: "code_unit \<Rightarrow> bool" where
  "is_line_terminator c = (c = 0x0A \<or> c = 0x0D \<or> c = 0x2028 \<or> c = 0x2029)"

definition is_white_space :: "code_unit \<Rightarrow> bool" where
  "is_white_space c =
     (c = 0x09 \<or> c = 0x0B \<or> c = 0x0C \<or> c = 0x20 \<or> c = 0xA0 \<or> c = 0x1680
      \<or> (0x2000 \<le> c \<and> c \<le> 0x200A) \<or> c = 0x202F \<or> c = 0x205F \<or> c = 0x3000
      \<or> c = 0xFEFF \<or> is_line_terminator c)"

definition is_digit :: "code_unit \<Rightarrow> bool" where
  "is_digit c = (0x30 \<le> c \<and> c \<le> 0x39)"

definition to_upper :: "code_unit \<Rightarrow> code_unit" where
  "to_upper c = (if 0x61 \<le> c \<and> c \<le> 0x7A then c - 0x20 else c)"

definition to_lower :: "code_unit \<Rightarrow> code_unit" where
  "to_lower c = (if 0x41 \<le> c \<and> c \<le> 0x5A then c + 0x20 else c)"

definition in_ranges :: "(code_unit \<times> code_unit) list \<Rightarrow> code_unit \<Rightarrow> bool" where
  "in_ranges rs c = list_ex (\<lambda>(lo, hi). lo \<le> c \<and> c \<le> hi) rs"

definition class_mem :: "(code_unit \<times> code_unit) list \<Rightarrow> code_unit \<Rightarrow> bool" where
  "class_mem rs c = (in_ranges rs c \<or> in_ranges rs (to_upper c) \<or> in_ranges rs (to_lower c))"

section \<open>Regular expressions with backtracking\<close>

text \<open>
  The constructs that \<^verbatim>\<open>URL_REG_EXP\<close> uses: a pattern character, a class of
  ranges \<^verbatim>\<open>[...]\<close>, \<^verbatim>\<open>\d\<close>, \<^verbatim>\<open>\s\<close>, \<^verbatim>\<open>\S\<close>, \<^verbatim>\<open>.\<close>, sequence, alternative, the
  greedy quantifier \<^verbatim>\<open>{min,max}\<close> (\<^verbatim>\<open>?\<close>, \<^verbatim>\<open>*\<close> and \<^verbatim>\<open>+\<close> are instances; no upper
  bound is \<open>None\<close>), the negative lookahead \<^verbatim>\<open>(?!...)\<close>, and the assertions \<^verbatim>\<open>^\<close>
  and \<^verbatim>\<open>$\<close> (without the flag \<^verbatim>\<open>m\<close>: start and end of the input). Groups only
  bracket; the pattern has no back-reference.
\<close>

datatype regex =
    Lit code_unit
  | Class "(code_unit \<times> code_unit) list"
  | Digit
  | Space
  | NonSpace
  | AnyChar
  | Seq regex regex
  | Alt regex regex
  | Repeat nat "nat option" regex
  | NegLookahead regex
  | LineStart
  | LineEnd
  | Eps

fun step :: "(code_unit \<Rightarrow> bool) \<Rightarrow> jsstring \<Rightarrow> jsstring list" where
  "step P [] = []"
| "step P (c # s) = (if P c then [s] else [])"

fun rsize :: "regex \<Rightarrow> nat" where
  "rsize (Seq a b) = Suc (rsize a + rsize b)"
| "rsize (Alt a b) = Suc (rsize a + rsize b)"
| "rsize (Repeat mn mx r) = Suc (rsize r + mn + (case mx of None \<Rightarrow> 0 | Some m \<Rightarrow> m))"
| "rsize (NegLookahead r) = Suc (rsize r)"
| "rsize _ = 0"

text \<open>
  \<open>rmatch n r s\<close> runs \<open>r\<close> on the rest \<open>s\<close> of an input of \<open>n\<close> code units and
  lists, in the order in which the backtracking engine tries them, the rests that
  remain after each way of matching. The head of the list is the engine's first choice;
  the empty list is failure. An iteration of a quantifier whose minimum is already
  reached must consume input (the engine rejects an empty iteration there).
\<close>

function rmatch :: "nat \<Rightarrow> regex \<Rightarrow> jsstring \<Rightarrow> jsstring list" where
  "rmatch n (Lit c) s = step (\<lambda>x. to_upper x = to_upper c) s"
| "rmatch n (Class rs) s = step (class_mem rs) s"
| "rmatch n Digit s = step is_digit s"
| "rmatch n Space s = step is_white_space s"
| "rmatch n NonSpace s = step (\<lambda>x. \<not> is_white_space x) s"
| "rmatch n AnyChar s = step (\<lambda>x. \<not> is_line_terminator x) s"
| "rmatch n (Seq a b) s = concat (map (rmatch n b) (rmatch n a s))"
| "rmatch n (Alt a b) s = rmatch n a s @ rmatch n b s"
| "rmatch n (Repeat mn mx r) s =
     (if mx = Some 0 then [s]
      else concat (map (rmatch n (Repeat (mn - 1) (map_option (\<lambda>m. m - 1) mx) r))
             (filter (\<lambda>s'. 0 < mn \<or> length s' < length s) (rmatch n r s)))
           @ (if mn = 0 then [s] else []))"
| "rmatch n (NegLookahead r) s = (if rmatch n r s = [] then [s] else [])"
| "rmatch n LineStart s = (if length s = n then [s] else [])"
| "rmatch n LineEnd s = (if s = [] then [s] else [])"
| "rmatch n Eps s = [s]"
  by pat_completeness auto
termination
  by (relation "inv_image (less_than <*lex*> less_than) (\<lambda>(n, r, s). (rsize r, length s))")
     (auto split: option.splits)

subsection \<open>The pattern \<^verbatim>\<open>URL_REG_EXP\<close>\<close>

definition ch :: "char \<Rightarrow> regex" where
  "ch c = Lit (of_char c)"

fun seqs :: "regex list \<Rightarrow> regex" where
  "seqs [] = Eps"
| "seqs [r] = r"
| "seqs (r # rs) = Seq r (seqs rs)"

definition str :: "string \<Rightarrow> regex" where
  "str s = seqs (map ch s)"

definition rng :: "char \<Rightarrow> char \<Rightarrow> code_unit \<times> code_unit" where
  "rng a b = (of_char a, of_char b)"

definition one :: "char \<Rightarrow> code_unit \<times> code_unit" where
  "one a = (of_char a, of_char a)"

definition Opt :: "regex \<Rightarrow> regex" where
  "Opt r = Repeat 0 (Some 1) r"

definition Star :: "regex \<Rightarrow> regex" where
  "Star r = Repeat 0 None r"

definition Plus :: "regex \<Rightarrow> regex" where
  "Plus r = Repeat 1 None r"

text \<open>\<^verbatim>\<open>[-_a-z0-9\u00a1-\uffff]\<close> and \<^verbatim>\<open>[a-z\u00a1-\uffff]\<close>.\<close>

definition host_chars :: regex where
  "host_chars = Class [one CHR ''-'', one CHR ''_'', rng CHR ''a'' CHR ''z'',
                       rng CHR ''0'' CHR ''9'', (0x00A1, 0xFFFF)]"

definition tld_chars :: regex where
  "tld_chars = Class [rng CHR ''a'' CHR ''z'', (0x00A1, 0xFFFF)]"

text \<open>\<^verbatim>\<open>(?:(?:(?:https?|ftp):)?\/\/)\<close>\<close>

definition scheme :: regex where
  "scheme = Seq (Opt (Seq (Alt (Seq (str ''http'') (Opt (ch CHR ''s''))) (str ''ftp''))
                          (ch CHR '':'')))
                (str ''//'')"

text \<open>\<^verbatim>\<open>(?:\S+(?::\S*)?@)?\<close>\<close>

definition basic_auth :: regex where
  "basic_auth = Opt (seqs [Plus NonSpace, Opt (Seq (ch CHR '':'') (Star NonSpace)), ch CHR ''@''])"

text \<open>\<^verbatim>\<open>(?:[1-9]\d?|1\d\d|2[01]\d|22[0-3])\<close>\<close>

definition first_octet :: regex where
  "first_octet =
     Alt (Seq (Class [rng CHR ''1'' CHR ''9'']) (Opt Digit))
    (Alt (seqs [ch CHR ''1'', Digit, Digit])
    (Alt (seqs [ch CHR ''2'', Class [one CHR ''0'', one CHR ''1''], Digit])
         (seqs [ch CHR ''2'', ch CHR ''2'', Class [rng CHR ''0'' CHR ''3'']])))"

text \<open>\<^verbatim>\<open>(?:1?\d{1,2}|2[0-4]\d|25[0-5])\<close>\<close>

definition mid_octet :: regex where
  "mid_octet =
     Alt (Seq (Opt (ch CHR ''1'')) (Repeat 1 (Some 2) Digit))
    (Alt (seqs [ch CHR ''2'', Class [rng CHR ''0'' CHR ''4''], Digit])
         (seqs [ch CHR ''2'', ch CHR ''5'', Class [rng CHR ''0'' CHR ''5'']]))"

text \<open>\<^verbatim>\<open>(?:[1-9]\d?|1\d\d|2[0-4]\d|25[0-4])\<close>\<close>

definition last_octet :: regex where
  "last_octet =
     Alt (Seq (Class [rng CHR ''1'' CHR ''9'']) (Opt Digit))
    (Alt (seqs [ch CHR ''1'', Digit, Digit])
    (Alt (seqs [ch CHR ''2'', Class [rng CHR ''0'' CHR ''4''], Digit])
         (seqs [ch CHR ''2'', ch CHR ''5'', Class [rng CHR ''0'' CHR ''4'']])))"

text \<open>The dotted address: the first octet, \<^verbatim>\<open>(?:\.octet){2}\<close>, \<^verbatim>\<open>(?:\.octet)\<close>.\<close>

definition ipv4 :: regex where
  "ipv4 = seqs [first_octet,
                Repeat 2 (Some 2) (Seq (ch CHR ''.'') mid_octet),
                Seq (ch CHR ''.'') last_octet]"

text \<open>
  \<^verbatim>\<open>((?!www\.)|(www\.))(?![-_])(?:[-_a-z0-9\u00a1-\uffff]{1,63}\.)+(?:[a-z\u00a1-\uffff]{2,63})\<close>
\<close>

definition domain :: regex where
  "domain = seqs [Alt (NegLookahead (str ''www.'')) (str ''www.''),
                  NegLookahead (Class [one CHR ''-'', one CHR ''_'']),
                  Plus (Seq (Repeat 1 (Some 63) host_chars) (ch CHR ''.'')),
                  Repeat 2 (Some 63) tld_chars]"

text \<open>\<^verbatim>\<open>(?::\d{2,5})?\<close> and \<^verbatim>\<open>(?:[/?#]\S*)?\<close>\<close>

definition port :: regex where
  "port = Opt (Seq (ch CHR '':'') (Repeat 2 (Some 5) Digit))"

definition resource_path :: regex where
  "resource_path = Opt (Seq (Class [one CHR ''/'', one CHR ''?'', one CHR ''#'']) (Star NonSpace))"

text \<open>Alternative a, the full form, and alternative b, the short form.\<close>

definition full_form :: regex where
  "full_form = seqs [scheme, basic_auth, Alt ipv4 domain, port, resource_path]"

text \<open>
  \<^verbatim>\<open>(www.|(\S+@))((?![-_])(?:[-_a-z0-9\u00a1-\uffff]{1,63}\.))+(?:[a-z\u00a1-\uffff]{2,63})\<close>:
  the dot after \<^verbatim>\<open>www\<close> is not escaped in the source.
\<close>

definition short_form :: regex where
  "short_form =
     seqs [Alt (seqs [ch CHR ''w'', ch CHR ''w'', ch CHR ''w'', AnyChar])
               (Seq (Plus NonSpace) (ch CHR ''@'')),
           Plus (Seq (NegLookahead (Class [one CHR ''-'', one CHR ''_'']))
                     (Seq (Repeat 1 (Some 63) host_chars) (ch CHR ''.''))),
           Repeat 2 (Some 63) tld_chars]"

text \<open>Group 1 is \<^verbatim>\<open>(^|\s)\<close>; group 2 is the detected URL or e-mail.\<close>

definition URL_GROUP1 :: regex where
  "URL_GROUP1 = Alt LineStart Space"

definition URL_GROUP2 :: regex where
  "URL_GROUP2 = Alt full_form short_form"

definition URL_GROUP_IN_MATCH :: nat where
  "URL_GROUP_IN_MATCH = 2"

text \<open>
  \<^verbatim>\<open>URL_REG_EXP.exec( text )\<close> tries the start indices \<open>0, 1, ...\<close> in turn and at each
  one runs group 1, group 2 and \<^verbatim>\<open>$\<close>. \<open>match_at n s\<close> is the attempt at the start
  whose rest is \<open>s\<close>; on success it returns the match array up to group 2: the whole
  match, what group 1 captured and what group 2 captured. A failed \<open>exec\<close> returns
  \<^verbatim>\<open>null\<close>, here \<open>None\<close>.
\<close>

definition match_at :: "nat \<Rightarrow> jsstring \<Rightarrow> jsstring list option" where
  "match_at n s =
     (case [[take (length s - length r2) s, take (length s - length r1) s,
             take (length r1 - length r2) r1].
              r1 \<leftarrow> rmatch n URL_GROUP1 s, r2 \<leftarrow> rmatch n URL_GROUP2 r1,
              r3 \<leftarrow> rmatch n LineEnd r2] of
        [] \<Rightarrow> None
      | m # _ \<Rightarrow> Some m)"

fun scan :: "nat \<Rightarrow> jsstring \<Rightarrow> jsstring list option" where
  "scan n [] = match_at n []"
| "scan n (c # s) = (case match_at n (c # s) of Some m \<Rightarrow> Some m | None \<Rightarrow> scan n s)"

definition URL_REG_EXP_exec :: "jsstring \<Rightarrow> jsstring list option" where
  "URL_REG_EXP_exec text = scan (length text) text"

definition getUrlAtTextEnd :: "jsstring \<Rightarrow> jsstring option" where
  "getUrlAtTextEnd text =
     (case URL_REG_EXP_exec text of
        None \<Rightarrow> None
      | Some match \<Rightarrow> Some (match ! URL_GROUP_IN_MATCH))"

section \<open>The trigger of the typing path\<close>

definition MIN_LINK_LENGTH_WITH_SPACE_AT_END :: int where
  "MIN_LINK_LENGTH_WITH_SPACE_AT_END = 4"

definition isSingleSpaceAtTheEnd :: "jsstring \<Rightarrow> bool" where
  "isSingleSpaceAtTheEnd text =
     (int (length text) > MIN_LINK_LENGTH_WITH_SPACE_AT_END
      \<and> char_at text (int (length text) - 1) = Some 0x20
      \<and> char_at text (int (length text) - 2) \<noteq> Some 0x20)"

text \<open>
  The callback given to the text watcher: \<open>None\<close> is the callback returning nothing,
  \<open>Some url\<close> the object \<^verbatim>\<open>{ url }\<close>. The test \<^verbatim>\<open>if ( url )\<close> fails for
  \<^verbatim>\<open>null\<close> and for the empty string.
\<close>

definition testCallback :: "jsstring \<Rightarrow> jsstring option" where
  "testCallback text =
     (if \<not> isSingleSpaceAtTheEnd text then None
      else case getUrlAtTextEnd (substr0 text (int (length text) - 1)) of
             None \<Rightarrow> None
           | Some url \<Rightarrow> if url \<noteq> [] then Some url else None)"

section \<open>The document model seen from the plugin\<close>

text \<open>
  The plugin reads and writes the document only through the engine's interface. A
  position is an offset in a parent element, a range is a pair of positions.
\<close>

record position =
  parent :: nat
  offset :: nat

record model_range =
  range_start :: position
  range_end :: position

text \<open>
  Modelled from the spec: the engine's position arithmetic (``shift-by-offset'',
  ``create-range''), which is not part of \<^verbatim>\<open>autolink.js\<close>. An offset is never
  negative: a shift that would pass the start of the parent stops at offset 0.
\<close>

definition getShiftedBy :: "position \<Rightarrow> int \<Rightarrow> position" where
  "getShiftedBy p shift =
     (let off = int (offset p) + shift in p\<lparr>offset := (if off < 0 then 0 else nat off)\<rparr>)"

definition createRange :: "position \<Rightarrow> position \<Rightarrow> model_range" where
  "createRange s e = \<lparr>range_start = s, range_end = e\<rparr>"

record batch =
  isTyping :: bool

text \<open>The data of the watcher's event \<^verbatim>\<open>matched:data\<close>.\<close>

record match_data =
  md_batch :: batch
  md_range :: model_range
  md_url :: jsstring

text \<open>
  The collaborators the plugin calls and \<^verbatim>\<open>autolink.js\<close> does not define, as
  parameters: the schema check, the node after a position and its attributes, the
  writer's \<^verbatim>\<open>setAttribute\<close>, the text of the last line of a range with the range that
  covers it, and the two functions of \<^verbatim>\<open>./utils\<close>. \<open>'doc\<close> is the engine's document,
  \<open>'node\<close> its nodes.
\<close>

record ('doc, 'node) engine =
  checkAttributeInSelection :: "'doc \<Rightarrow> model_range \<Rightarrow> string \<Rightarrow> bool"
  nodeAfter :: "'doc \<Rightarrow> position \<Rightarrow> 'node option"
  hasAttribute :: "'node \<Rightarrow> string \<Rightarrow> bool"
  setAttribute :: "string \<Rightarrow> jsstring \<Rightarrow> model_range \<Rightarrow> 'doc \<Rightarrow> 'doc"
  getLastTextLine :: "model_range \<Rightarrow> 'doc \<Rightarrow> jsstring \<times> model_range"
  addLinkProtocolIfApplicable :: "jsstring \<Rightarrow> jsstring option \<Rightarrow> jsstring"
  linkHasProtocol :: "jsstring \<Rightarrow> bool"

text \<open>
  What the plugin can change: its own \<^verbatim>\<open>isEnabled\<close>, the watcher's \<^verbatim>\<open>isEnabled\<close>
  bound to it, the document, and the requests made to the Delete plugin. The option
  \<^verbatim>\<open>link.defaultProtocol\<close> is read only.
\<close>

record 'doc editor =
  isEnabled :: bool
  watcher_isEnabled :: bool
  defaultProtocol :: "jsstring option"
  document :: 'doc
  undoOnBackspaceRequests :: nat

section \<open>The plugin\<close>

definition isLinkAllowedOnRange :: "('doc, 'node) engine \<Rightarrow> model_range \<Rightarrow> 'doc \<Rightarrow> bool" where
  "isLinkAllowedOnRange eng r doc = checkAttributeInSelection eng doc r ''linkHref''"

text \<open>\<^verbatim>\<open>item && item.hasAttribute( 'linkHref' )\<close>: no node after the start is falsy.\<close>

definition linkIsAlreadySet :: "('doc, 'node) engine \<Rightarrow> model_range \<Rightarrow> 'doc \<Rightarrow> bool" where
  "linkIsAlreadySet eng r doc =
     (case nodeAfter eng doc (range_start r) of
        None \<Rightarrow> False
      | Some item \<Rightarrow> hasAttribute eng item ''linkHref'')"

text \<open>
  Modelled from the spec: \<^verbatim>\<open>model.enqueueChange\<close> of the engine (``atomic change
  grouping with nested sub-steps''). The callback's write is one mutation of the document
  over the whole range; the change enqueued inside it runs as the second step, after it.
\<close>

definition persistAutoLink ::
  "('doc, 'node) engine \<Rightarrow> jsstring \<Rightarrow> model_range \<Rightarrow> 'doc editor \<Rightarrow> 'doc editor" where
  "persistAutoLink eng url r ed =
     (let ed1 = ed\<lparr>document := setAttribute eng ''linkHref'' url r (document ed)\<rparr>
      in ed1\<lparr>undoOnBackspaceRequests := Suc (undoOnBackspaceRequests ed1)\<rparr>)"

definition applyAutoLink ::
  "('doc, 'node) engine \<Rightarrow> jsstring \<Rightarrow> model_range \<Rightarrow> 'doc editor \<Rightarrow> 'doc editor" where
  "applyAutoLink eng url r ed =
     (let fullUrl = addLinkProtocolIfApplicable eng url (defaultProtocol ed)
      in if \<not> isEnabled ed \<or> \<not> isLinkAllowedOnRange eng r (document ed)
            \<or> \<not> linkHasProtocol eng fullUrl \<or> linkIsAlreadySet eng r (document ed)
         then ed
         else persistAutoLink eng fullUrl r ed)"

text \<open>
  The range computed by the handler of \<^verbatim>\<open>matched:data\<close> (lines 138 to 141) and the
  one computed by \<^verbatim>\<open>_checkAndApplyAutoLinkOnRange\<close> (lines 216 to 219).
\<close>

definition typingLinkRange :: "model_range \<Rightarrow> jsstring \<Rightarrow> model_range" where
  "typingLinkRange r url =
     (let linkEnd = getShiftedBy (range_end r) (- 1);
          linkStart = getShiftedBy linkEnd (- int (length url))
      in createRange linkStart linkEnd)"

definition lineLinkRange :: "model_range \<Rightarrow> jsstring \<Rightarrow> model_range" where
  "lineLinkRange r url = createRange (getShiftedBy (range_end r) (- int (length url))) (range_end r)"

definition matched_data_handler ::
  "('doc, 'node) engine \<Rightarrow> match_data \<Rightarrow> 'doc editor \<Rightarrow> 'doc editor" where
  "matched_data_handler eng d ed =
     (if \<not> isTyping (md_batch d) then ed
      else applyAutoLink eng (md_url d) (typingLinkRange (md_range d) (md_url d)) ed)"

definition checkAndApplyAutoLinkOnRange ::
  "('doc, 'node) engine \<Rightarrow> model_range \<Rightarrow> 'doc editor \<Rightarrow> 'doc editor" where
  "checkAndApplyAutoLinkOnRange eng rangeToCheck ed =
     (case getLastTextLine eng rangeToCheck (document ed) of
        (text, r) \<Rightarrow>
          (case getUrlAtTextEnd text of
             None \<Rightarrow> ed
           | Some url \<Rightarrow>
               if url \<noteq> [] then applyAutoLink eng url (lineLinkRange r url) ed else ed))"

text \<open>
  Modelled from the spec: the text watcher of the typing package. On a change of the
  document's data it does nothing while its \<^verbatim>\<open>isEnabled\<close> is false; otherwise it takes
  the text of the line before the selection with the range that covers it, runs the
  callback, and on a result fires \<^verbatim>\<open>matched:data\<close> with the batch, the range and the
  callback's result.
\<close>

definition watcher_change_data ::
  "('doc, 'node) engine \<Rightarrow> model_range \<Rightarrow> batch \<Rightarrow> 'doc editor \<Rightarrow> 'doc editor" where
  "watcher_change_data eng beforeSelection b ed =
     (if \<not> watcher_isEnabled ed then ed
      else case getLastTextLine eng beforeSelection (document ed) of
             (text, r) \<Rightarrow>
               (case testCallback text of
                  None \<Rightarrow> ed
                | Some url \<Rightarrow>
                    matched_data_handler eng \<lparr>md_batch = b, md_range = r, md_url = url\<rparr> ed))"

text \<open>
  Modelled from the spec: the one-way binding \<^verbatim>\<open>watcher.bind( 'isEnabled' ).to( this )\<close>.
  Setting the plugin's \<^verbatim>\<open>isEnabled\<close> sets the watcher's.
\<close>

definition set_isEnabled :: "bool \<Rightarrow> 'doc editor \<Rightarrow> 'doc editor" where
  "set_isEnabled v ed = ed\<lparr>isEnabled := v, watcher_isEnabled := v\<rparr>"

text \<open>
  The listener of \<^verbatim>\<open>change:range\<close> on the selection; the argument says whether the
  parent of the selection's anchor is a \<^verbatim>\<open>codeBlock\<close> element.
\<close>

definition selection_change_range :: "bool \<Rightarrow> 'doc editor \<Rightarrow> 'doc editor" where
  "selection_change_range anchorInCodeBlock ed = set_isEnabled (\<not> anchorInCodeBlock) ed"

text \<open>
  The listeners of the commands \<^verbatim>\<open>enter\<close> and \<^verbatim>\<open>shiftEnter\<close>. For Enter the argument
  is the range inside the previous sibling of the selection's parent, \<open>None\<close> when there
  is no previous sibling; for Shift+Enter it is the first position of the selection.
\<close>

definition enter_executed ::
  "('doc, 'node) engine \<Rightarrow> model_range option \<Rightarrow> 'doc editor \<Rightarrow> 'doc editor" where
  "enter_executed eng previousSibling ed =
     (case previousSibling of
        None \<Rightarrow> ed
      | Some rangeToCheck \<Rightarrow> checkAndApplyAutoLinkOnRange eng rangeToCheck ed)"

definition shiftEnter_executed ::
  "('doc, 'node) engine \<Rightarrow> position \<Rightarrow> 'doc editor \<Rightarrow> 'doc editor" where
  "shiftEnter_executed eng pos ed =
     checkAndApplyAutoLinkOnRange eng
       (createRange (pos\<lparr>offset := 0\<rparr>) (getShiftedBy pos (- 1))) ed"

text \<open>
  The events the plugin reacts to, and the states it can reach from the state in which
  \<^verbatim>\<open>init\<close> leaves it: the plugin enabled and the watcher bound to it.
\<close>

datatype event =
    SelectionChangeRange bool
  | ChangeData model_range batch
  | EnterExecuted "model_range option"
  | ShiftEnterExecuted position

fun handle :: "('doc, 'node) engine \<Rightarrow> event \<Rightarrow> 'doc editor \<Rightarrow> 'doc editor" where
  "handle eng (SelectionChangeRange cb) ed = selection_change_range cb ed"
| "handle eng (ChangeData r b) ed = watcher_change_data eng r b ed"
| "handle eng (EnterExecuted prev) ed = enter_executed eng prev ed"
| "handle eng (ShiftEnterExecuted pos) ed = shiftEnter_executed eng pos ed"

definition init :: "jsstring option \<Rightarrow> 'doc \<Rightarrow> 'doc editor" where
  "init proto doc =
     \<lparr>isEnabled = True, watcher_isEnabled = True, defaultProtocol = proto, document = doc,
      undoOnBackspaceRequests = 0\<rparr>"

fun run :: "('doc, 'node) engine \<Rightarrow> event list \<Rightarrow> 'doc editor \<Rightarrow> 'doc editor" where
  "run eng [] ed = ed"
| "run eng (e # es) ed = run eng es (handle eng e ed)"

section \<open>An instance of the collaborators\<close>

text \<open>
  Modelled from the spec: the engine's document and the two functions of \<^verbatim>\<open>./utils\<close>,
  none of which is under \<^verbatim>\<open>src/\<close>. They are needed only to run the plugin on concrete
  inputs; every general statement below is about an arbitrary \<^typ>\<open>('doc, 'node) engine\<close>.

  The document is one line of text in the parent 0: a list of characters, each with its
  optional \<^verbatim>\<open>linkHref\<close>, the only attribute that is modelled. The engine keeps a text as
  text nodes, and neighbouring characters with the same attributes are one text node. A
  position's \<^verbatim>\<open>nodeAfter\<close> is the node that begins at the position: it is \<^verbatim>\<open>null\<close> at the
  end of the parent and also when the position is inside a text node. The spec speaks of
  ``the character immediately at \<^verbatim>\<open>range.start\<close>''; the plugin reads \<^verbatim>\<open>nodeAfter\<close>, and the
  two differ exactly inside a text node.
\<close>

type_synonym flat_doc = "(code_unit \<times> jsstring option) list"

record text_node =
  node_data :: jsstring
  node_linkHref :: "jsstring option"

definition flat_nodeAfter :: "flat_doc \<Rightarrow> position \<Rightarrow> text_node option" where
  "flat_nodeAfter doc p =
     (let i = offset p in
      if length doc \<le> i then None
      else if 0 < i \<and> snd (doc ! (i - 1)) = snd (doc ! i) then None
      else Some \<lparr>node_data = map fst (takeWhile (\<lambda>x. snd x = snd (doc ! i)) (drop i doc)),
                 node_linkHref = snd (doc ! i)\<rparr>)"

definition flat_hasAttribute :: "text_node \<Rightarrow> string \<Rightarrow> bool" where
  "flat_hasAttribute item k = (k = ''linkHref'' \<and> node_linkHref item \<noteq> None)"

definition flat_setAttribute :: "string \<Rightarrow> jsstring \<Rightarrow> model_range \<Rightarrow> flat_doc \<Rightarrow> flat_doc" where
  "flat_setAttribute k v r doc =
     (if k = ''linkHref''
      then map (\<lambda>(i, c, l). if offset (range_start r) \<le> i \<and> i < offset (range_end r)
                             then (c, Some v) else (c, l))
             (enumerate 0 doc)
      else doc)"

text \<open>
  The text of a range and the range that covers it: in a line that holds text only,
  the characters from the start of the range to its end, and the range itself.
\<close>

definition flat_getLastTextLine :: "model_range \<Rightarrow> flat_doc \<Rightarrow> jsstring \<times> model_range" where
  "flat_getLastTextLine r doc =
     (map fst (take (offset (range_end r) - offset (range_start r))
                 (drop (offset (range_start r)) doc)),
      createRange (range_start r) (range_end r))"

text \<open>
  \<^verbatim>\<open>RegExp.prototype.test\<close>: whether the pattern matches at some start index.
\<close>

definition regex_test :: "regex \<Rightarrow> jsstring \<Rightarrow> bool" where
  "regex_test rx s = list_ex (\<lambda>i. rmatch (length s) rx (drop i s) \<noteq> []) [0..<Suc (length s)]"

text \<open>
  The protocol test of \<^verbatim>\<open>./utils\<close>, \<^verbatim>\<open>/^((\w+:(\/{2,})?)|(\W))/i\<close>: a link has a protocol
  when it starts with word characters and a colon (a scheme in any case, with or without
  slashes) or with a character that is not a word character (\<^verbatim>\<open>/\<close>, \<^verbatim>\<open>#\<close> and so on).
\<close>

definition word_ranges :: "(code_unit \<times> code_unit) list" where
  "word_ranges = [rng CHR ''a'' CHR ''z'', rng CHR ''A'' CHR ''Z'', rng CHR ''0'' CHR ''9'',
                  one CHR ''_'']"

definition non_word_ranges :: "(code_unit \<times> code_unit) list" where
  "non_word_ranges = [(0x0000, 0x002F), (0x003A, 0x0040), (0x005B, 0x005E), (0x0060, 0x0060),
                      (0x007B, 0xFFFF)]"

definition PROTOCOL_REG_EXP :: regex where
  "PROTOCOL_REG_EXP =
     Seq LineStart
       (Alt (seqs [Plus (Class word_ranges), ch CHR '':'', Opt (Repeat 2 None (ch CHR ''/''))])
            (Class non_word_ranges))"

definition flat_linkHasProtocol :: "jsstring \<Rightarrow> bool" where
  "flat_linkHasProtocol link = regex_test PROTOCOL_REG_EXP link"

text \<open>
  The e-mail test of \<^verbatim>\<open>./utils\<close>,
  \<^verbatim>\<open>/^[\S]+@((?![-_])(?:[-\w\u00a1-\uffff]{0,63}[^-_]\.))+(?:[a-z\u00a1-\uffff]{2,})$/i\<close>,
  and \<^verbatim>\<open>addLinkProtocolIfApplicable\<close>: an e-mail address gets \<^verbatim>\<open>mailto:\<close>, any other
  link without a protocol gets the default protocol when one is configured (an empty
  string counts as none), and a link that has a protocol is returned as it is.
\<close>

definition EMAIL_REG_EXP :: regex where
  "EMAIL_REG_EXP =
     seqs [LineStart, Plus NonSpace, ch CHR ''@'',
           Plus (Seq (NegLookahead (Class [one CHR ''-'', one CHR ''_'']))
                     (seqs [Repeat 0 (Some 63) (Class (one CHR ''-'' # (0x00A1, 0xFFFF) # word_ranges)),
                            Class [(0x0000, 0x002C), (0x002E, 0x005E), (0x0060, 0xFFFF)],
                            ch CHR ''.''])),
           Repeat 2 None tld_chars, LineEnd]"

definition isEmail :: "jsstring \<Rightarrow> bool" where
  "isEmail v = regex_test EMAIL_REG_EXP v"

definition flat_addLinkProtocolIfApplicable :: "jsstring \<Rightarrow> jsstring option \<Rightarrow> jsstring" where
  "flat_addLinkProtocolIfApplicable link configured =
     (let protocol = (if isEmail link then Some (js ''mailto:'') else configured);
          isProtocolNeeded = (protocol \<noteq> None \<and> protocol \<noteq> Some [] \<and> \<not> flat_linkHasProtocol link)
      in if link \<noteq> [] \<and> isProtocolNeeded then the protocol @ link else link)"

text \<open>The schema of the instance allows \<^verbatim>\<open>linkHref\<close> on every range.\<close>

definition flat_engine :: "(flat_doc, text_node) engine" where
  "flat_engine =
     \<lparr>checkAttributeInSelection = (\<lambda>doc r k. True),
      nodeAfter = flat_nodeAfter,
      hasAttribute = flat_hasAttribute,
      setAttribute = flat_setAttribute,
      getLastTextLine = flat_getLastTextLine,
      addLinkProtocolIfApplicable = flat_addLinkProtocolIfApplicable,
      linkHasProtocol = flat_linkHasProtocol\<rparr>"

definition plain :: "string \<Rightarrow> flat_doc" where
  "plain s = map (\<lambda>c. (c, None)) (js s)"

definition linked :: "string \<Rightarrow> string \<Rightarrow> flat_doc" where
  "linked href s = map (\<lambda>c. (c, Some (js href))) (js s)"

definition at :: "nat \<Rightarrow> position" where
  "at i = \<lparr>parent = 0, offset = i\<rparr>"

section \<open>Notions used to state and prove the properties\<close>

text \<open>
  The characters the class \<^verbatim>\<open>[a-z\u00a1-\uffff]\<close> of the top-level domain accepts, the
  characters a host or a port can end with, and the characters a resource path starts
  with.
\<close>

definition is_tld_char :: "code_unit \<Rightarrow> bool" where
  "is_tld_char c = class_mem [rng CHR ''a'' CHR ''z'', (0x00A1, 0xFFFF)] c"

definition end_char :: "code_unit \<Rightarrow> bool" where
  "end_char c = (is_digit c \<or> is_tld_char c)"

definition is_path_start :: "code_unit \<Rightarrow> bool" where
  "is_path_start c = class_mem [one CHR ''/'', one CHR ''?'', one CHR ''#''] c"

text \<open>
  \<open>ends_with n rx Q\<close>: whatever \<open>rx\<close> matches is not empty and its last character
  satisfies \<open>Q\<close>.
\<close>

definition ends_with :: "nat \<Rightarrow> regex \<Rightarrow> (code_unit \<Rightarrow> bool) \<Rightarrow> bool" where
  "ends_with n rx Q = (\<forall>s r. r \<in> set (rmatch n rx s) \<longrightarrow> (\<exists>h. s = h @ r \<and> h \<noteq> [] \<and> Q (last h)))"

text \<open>
  Modelled from the spec: what the engine's \<^verbatim>\<open>getLastTextLine\<close> promises about the pair
  it returns (``the plain text and covering range of the line''). A range covers a text
  when both ends lie in one parent and the offsets differ by the length of the text.
\<close>

definition covers :: "model_range \<Rightarrow> jsstring \<Rightarrow> bool" where
  "covers r text = (parent (range_start r) = parent (range_end r)
                    \<and> offset (range_start r) + length text = offset (range_end r))"

text \<open>
  How a match can begin: with \<^verbatim>\<open>//\<close>, alone or behind one of the scheme names
  \<^verbatim>\<open>http:\<close>, \<^verbatim>\<open>https:\<close>, \<^verbatim>\<open>ftp:\<close> in any case; or the way the short form begins, with
  \<^verbatim>\<open>www\<close> in any case and one more character, or with an \<^verbatim>\<open>@\<close> somewhere.
\<close>

definition starts_with_slashes :: "jsstring \<Rightarrow> bool" where
  "starts_with_slashes r =
     (\<exists>p q. r = p @ js ''//'' @ q
            \<and> map to_upper p \<in> {[], js ''HTTP:'', js ''HTTPS:'', js ''FTP:''})"

definition starts_like_short_form :: "jsstring \<Rightarrow> bool" where
  "starts_like_short_form r =
     ((\<exists>w q. r = w @ q \<and> map to_upper w = js ''WWW'' \<and> q \<noteq> []) \<or> 0x40 \<in> set r)"

text \<open>
  The decimal digits of a number, as \<^verbatim>\<open>String( n )\<close> writes them, and the dotted
  notation of an address with the octets \<open>a\<close>, \<open>b\<close>, \<open>c\<close>, \<open>d\<close>.
\<close>

fun decimal :: "nat \<Rightarrow> jsstring" where
  "decimal n = (if n < 10 then [of_nat (48 + n)] else decimal (n div 10) @ [of_nat (48 + n mod 10)])"

declare decimal.simps [simp del]

definition dotted :: "nat \<Rightarrow> nat \<Rightarrow> nat \<Rightarrow> nat \<Rightarrow> jsstring" where
  "dotted a b c d = decimal a @ js ''.'' @ decimal b @ js ''.'' @ decimal c @ js ''.'' @ decimal d"

section \<open>Facts about the matcher\<close>

declare rmatch.simps(9) [simp del]

lemma is_digit_unat: "is_digit c \<longleftrightarrow> 48 \<le> unat c \<and> unat c \<le> 57"
  by (simp add: is_digit_def word_le_nat_alt)

lemma to_upper_unat: "unat (to_upper c) = (if 97 \<le> unat c \<and> unat c \<le> 122 then unat c - 32 else unat c)"
  by (simp add: to_upper_def word_le_nat_alt unat_sub)

lemma to_lower_unat: "unat (to_lower c) = (if 65 \<le> unat c \<and> unat c \<le> 90 then unat c + 32 else unat c)"
  by (simp add: to_lower_def word_le_nat_alt unat_word_ariths)

lemma is_line_terminator_unat:
  "is_line_terminator c \<longleftrightarrow> unat c = 10 \<or> unat c = 13 \<or> unat c = 8232 \<or> unat c = 8233"
  by (simp add: is_line_terminator_def word_unat_eq_iff)

lemma is_white_space_unat:
  "is_white_space c \<longleftrightarrow>
     unat c = 9 \<or> unat c = 11 \<or> unat c = 12 \<or> unat c = 32 \<or> unat c = 160 \<or> unat c = 5760
     \<or> (8192 \<le> unat c \<and> unat c \<le> 8202) \<or> unat c = 8239 \<or> unat c = 8287 \<or> unat c = 12288
     \<or> unat c = 65279 \<or> unat c = 10 \<or> unat c = 13 \<or> unat c = 8232 \<or> unat c = 8233"
  by (simp add: is_white_space_def is_line_terminator_unat word_le_nat_alt) (simp add: word_unat_eq_iff)

lemma in_ranges_unat:
  "in_ranges rs c \<longleftrightarrow> list_ex (\<lambda>(lo, hi). unat lo \<le> unat c \<and> unat c \<le> unat hi) rs"
  by (simp add: in_ranges_def word_le_nat_alt)

lemma step_iff: "r \<in> set (step P s) \<longleftrightarrow> (\<exists>c. s = c # r \<and> P c)"
  by (cases s) auto

lemma Repeat_cases:
  assumes "r \<in> set (rmatch n (Repeat mn mx a) s)"
  obtains (stop) "mx = Some 0" "r = s"
    | (skip) "mx \<noteq> Some 0" "mn = 0" "r = s"
    | (iter) m where "mx \<noteq> Some 0" "m \<in> set (rmatch n a s)" "0 < mn \<or> length m < length s"
        "r \<in> set (rmatch n (Repeat (mn - 1) (map_option (\<lambda>m. m - 1) mx) a) m)"
  using assms by (subst (asm) rmatch.simps(9)) (auto split: if_splits)

lemma rmatch_suffix: "r \<in> set (rmatch n rx s) \<Longrightarrow> suffix r s"
proof (induction n rx s arbitrary: r rule: rmatch.induct)
  case (7 n a b s)
  then obtain m where m: "m \<in> set (rmatch n a s)" "r \<in> set (rmatch n b m)" by auto
  from 7 m show ?case by (meson suffix_order.trans)
next
  case (9 n mn mx rx s)
  from 9(3) show ?case
  proof (cases rule: Repeat_cases)
    case stop
    then show ?thesis by simp
  next
    case skip
    then show ?thesis by simp
  next
    case (iter m)
    from 9(1)[OF iter(1,2)] have "suffix m s" .
    moreover from 9(2)[OF iter(1) _ iter(4)] iter(2,3) have "suffix r m" by simp
    ultimately show ?thesis by (meson suffix_order.trans)
  qed
qed (auto simp add: step_iff suffix_Cons split: if_splits)

subsection \<open>The two places where the model rewrites the engine's rule\<close>

text \<open>
  With the flag \<^verbatim>\<open>i\<close> a character is in a class when some member of the class has the
  same canonical form; \<open>class_mem\<close> tests the three candidates. A quantifier rejects
  an iteration that ends where it began; \<open>rmatch\<close> compares lengths, which for a rest of
  the same input is the same test.
\<close>

lemma to_upper_eq_cases:
  "to_upper m = to_upper c \<Longrightarrow> m = c \<or> m = to_upper c \<or> m = to_lower c"
  by (simp add: word_unat_eq_iff to_upper_unat to_lower_unat; presburger)

lemma to_upper_idem: "to_upper (to_upper c) = to_upper c" "to_upper (to_lower c) = to_upper c"
  by ((simp add: word_unat_eq_iff to_upper_unat to_lower_unat; presburger)+)

lemma class_mem_canonical:
  "class_mem rs c \<longleftrightarrow> (\<exists>m. in_ranges rs m \<and> to_upper m = to_upper c)"
proof
  assume "class_mem rs c"
  then consider "in_ranges rs c" | "in_ranges rs (to_upper c)" | "in_ranges rs (to_lower c)"
    by (auto simp add: class_mem_def)
  then show "\<exists>m. in_ranges rs m \<and> to_upper m = to_upper c"
    by cases (use to_upper_idem in blast)+
next
  assume "\<exists>m. in_ranges rs m \<and> to_upper m = to_upper c"
  then obtain m where "in_ranges rs m" "to_upper m = to_upper c" by blast
  with to_upper_eq_cases [of m c] show "class_mem rs c"
    by (auto simp add: class_mem_def)
qed

lemma progress_iff: "s' \<in> set (rmatch n r s) \<Longrightarrow> length s' < length s \<longleftrightarrow> s' \<noteq> s"
  by (auto dest!: rmatch_suffix simp add: suffix_def)

lemma Repeat_zero: "rmatch n (Repeat mn (Some 0) a) s = [s]"
  by (subst rmatch.simps(9)) simp

lemma Opt_iff: "r \<in> set (rmatch n (Opt a) s) \<longleftrightarrow> r = s \<or> (r \<in> set (rmatch n a s) \<and> length r < length s)"
  unfolding Opt_def by (subst rmatch.simps(9)) (auto simp add: Repeat_zero)

lemma seqs_Nil_iff: "x \<in> set (rmatch n (seqs []) s) \<longleftrightarrow> x = s"
  by simp

lemma seqs_Cons_iff:
  "x \<in> set (rmatch n (seqs (r # rs)) s) \<longleftrightarrow> (\<exists>m\<in>set (rmatch n r s). x \<in> set (rmatch n (seqs rs) m))"
  by (cases rs) auto

lemma str_iff:
  "r \<in> set (rmatch n (str w) s) \<longleftrightarrow> (\<exists>p. s = p @ r \<and> map to_upper p = map to_upper (js w))"
proof (induction w arbitrary: s)
  case Nil
  then show ?case by (auto simp add: str_def js_def)
next
  case (Cons c w)
  have "r \<in> set (rmatch n (str (c # w)) s) \<longleftrightarrow>
        (\<exists>m\<in>set (rmatch n (ch c) s). r \<in> set (rmatch n (str w) m))"
    unfolding str_def by (simp only: list.map seqs_Cons_iff)
  also have "\<dots> \<longleftrightarrow> (\<exists>x m. s = x # m \<and> to_upper x = to_upper (of_char c) \<and> r \<in> set (rmatch n (str w) m))"
    by (auto simp add: ch_def step_iff)
  also have "\<dots> \<longleftrightarrow> (\<exists>p. s = p @ r \<and> map to_upper p = map to_upper (js (c # w)))"
    (is "?L \<longleftrightarrow> ?R")
  proof
    assume ?L
    then obtain x m p where "s = x # m" "to_upper x = to_upper (of_char c)" "m = p @ r"
      "map to_upper p = map to_upper (js w)"
      unfolding Cons.IH by blast
    then have "s = (x # p) @ r \<and> map to_upper (x # p) = map to_upper (js (c # w))"
      by (simp add: js_def)
    then show ?R by blast
  next
    assume ?R
    then obtain p' where p': "s = p' @ r" "map to_upper p' = map to_upper (js (c # w))" by blast
    then obtain x p where xp: "p' = x # p" by (cases p') (auto simp add: js_def)
    with p' have "s = x # (p @ r)" "to_upper x = to_upper (of_char c)"
      "map to_upper p = map to_upper (js w)"
      by (simp_all add: js_def)
    then show ?L unfolding Cons.IH by blast
  qed
  finally show ?case .
qed

lemma repeat_step:
  assumes C: "\<And>s. rmatch n C s = step P s"
  shows "r \<in> set (rmatch n (Repeat mn mx C) s) \<Longrightarrow> (case mx of None \<Rightarrow> True | Some m \<Rightarrow> mn \<le> m) \<Longrightarrow>
         \<exists>p. s = p @ r \<and> (\<forall>c\<in>set p. P c) \<and> mn \<le> length p"
proof (induction s arbitrary: mn mx)
  case Nil
  from Nil(1) show ?case
  proof (cases rule: Repeat_cases)
    case stop
    with Nil(2) show ?thesis by simp
  next
    case skip
    then show ?thesis by simp
  next
    case (iter m)
    then show ?thesis by (simp add: C)
  qed
next
  case (Cons c s)
  from Cons.prems(1) show ?case
  proof (cases rule: Repeat_cases)
    case stop
    with Cons.prems(2) show ?thesis by simp
  next
    case skip
    then show ?thesis by simp
  next
    case (iter m)
    then have Pc: "P c" and m: "m = s" by (auto simp add: C split: if_splits)
    have "case map_option (\<lambda>m. m - 1) mx of None \<Rightarrow> True | Some m \<Rightarrow> mn - 1 \<le> m"
      using Cons.prems(2) by (auto split: option.splits)
    from Cons.IH[OF iter(4)[unfolded m] this]
    obtain p where "s = p @ r" "\<forall>c\<in>set p. P c" "mn - 1 \<le> length p" by blast
    then have "c # s = (c # p) @ r \<and> (\<forall>x\<in>set (c # p). P x) \<and> mn \<le> length (c # p)"
      using Pc by auto
    then show ?thesis by blast
  qed
qed

lemma unat_code_unit: "unat (c :: code_unit) < 65536"
  using unsigned_less [of c, where 'a = nat] by simp

lemma is_tld_char_unat:
  "is_tld_char c \<longleftrightarrow> (97 \<le> unat c \<and> unat c \<le> 122) \<or> (65 \<le> unat c \<and> unat c \<le> 90) \<or> 161 \<le> unat c"
  using unat_code_unit [of c]
  by (simp add: is_tld_char_def class_mem_def in_ranges_unat rng_def to_upper_unat to_lower_unat; presburger)

lemma is_path_start_unat:
  "is_path_start c \<longleftrightarrow> unat c = 47 \<or> unat c = 63 \<or> unat c = 35"
  by (simp add: is_path_start_def class_mem_def in_ranges_unat one_def to_upper_unat to_lower_unat; presburger)

lemma digit_class_unat:
  "class_mem [rng CHR ''1'' CHR ''9''] c \<longleftrightarrow> 49 \<le> unat c \<and> unat c \<le> 57"
  by (simp add: class_mem_def in_ranges_unat rng_def to_upper_unat to_lower_unat; presburger)

lemma digit_class_unat':
  "class_mem [rng CHR ''0'' CHR ''4''] c \<longleftrightarrow> 48 \<le> unat c \<and> unat c \<le> 52"
  by (simp add: class_mem_def in_ranges_unat rng_def to_upper_unat to_lower_unat; presburger)

lemma ends_withI:
  "(\<And>s r. r \<in> set (rmatch n rx s) \<Longrightarrow> \<exists>h. s = h @ r \<and> h \<noteq> [] \<and> Q (last h)) \<Longrightarrow> ends_with n rx Q"
  by (simp add: ends_with_def)

lemma ends_withD:
  "ends_with n rx Q \<Longrightarrow> r \<in> set (rmatch n rx s) \<Longrightarrow> \<exists>h. s = h @ r \<and> h \<noteq> [] \<and> Q (last h)"
  by (simp add: ends_with_def)

lemma ends_with_step:
  assumes "\<And>s. rmatch n C s = step P s" "\<And>c. P c \<Longrightarrow> Q c"
  shows "ends_with n C Q"
proof (rule ends_withI)
  fix s r assume "r \<in> set (rmatch n C s)"
  then obtain c where "s = c # r" "P c" by (auto simp add: assms(1) step_iff)
  then have "s = [c] @ r \<and> [c] \<noteq> [] \<and> Q (last [c])" using assms(2) by simp
  then show "\<exists>h. s = h @ r \<and> h \<noteq> [] \<and> Q (last h)" by blast
qed

lemma ends_with_Seq:
  assumes "ends_with n b Q"
  shows "ends_with n (Seq a b) Q"
proof (rule ends_withI)
  fix s r assume "r \<in> set (rmatch n (Seq a b) s)"
  then obtain m where m: "m \<in> set (rmatch n a s)" "r \<in> set (rmatch n b m)" by auto
  from rmatch_suffix [OF m(1)] obtain x where x: "s = x @ m" by (auto simp add: suffix_def)
  from ends_withD [OF assms m(2)] obtain h where h: "m = h @ r" "h \<noteq> []" "Q (last h)" by blast
  from x h have "s = (x @ h) @ r \<and> x @ h \<noteq> [] \<and> Q (last (x @ h))" by simp
  then show "\<exists>h. s = h @ r \<and> h \<noteq> [] \<and> Q (last h)" by blast
qed

lemma ends_with_Alt:
  "ends_with n a Q \<Longrightarrow> ends_with n b Q \<Longrightarrow> ends_with n (Alt a b) Q"
  by (auto simp add: ends_with_def)

lemma ends_with_Seq_Opt:
  assumes "ends_with n a Q" "ends_with n b Q"
  shows "ends_with n (Seq a (Opt b)) Q"
proof (rule ends_withI)
  fix s r assume "r \<in> set (rmatch n (Seq a (Opt b)) s)"
  then obtain m where m: "m \<in> set (rmatch n a s)" "r \<in> set (rmatch n (Opt b) m)" by auto
  from ends_withD [OF assms(1) m(1)] obtain h where h: "s = h @ m" "h \<noteq> []" "Q (last h)" by blast
  from m(2) consider "r = m" | "r \<in> set (rmatch n b m)" by (auto simp add: Opt_iff)
  then show "\<exists>h. s = h @ r \<and> h \<noteq> [] \<and> Q (last h)"
  proof cases
    case 1
    with h show ?thesis by blast
  next
    case 2
    from ends_withD [OF assms(2) 2] obtain k where k: "m = k @ r" "k \<noteq> []" "Q (last k)" by blast
    with h have "s = (h @ k) @ r \<and> h @ k \<noteq> [] \<and> Q (last (h @ k))" by simp
    then show ?thesis by blast
  qed
qed

lemma ends_with_seqs:
  "rs \<noteq> [] \<Longrightarrow> ends_with n (last rs) Q \<Longrightarrow> ends_with n (seqs rs) Q"
proof (induction rs rule: seqs.induct)
  case 1
  then show ?case by simp
next
  case (2 r)
  then show ?case by simp
next
  case (3 r v va)
  then show ?case by (simp add: ends_with_Seq)
qed

lemma ends_with_Repeat_step:
  assumes "\<And>s. rmatch n C s = step P s" "\<And>c. P c \<Longrightarrow> Q c" "0 < mn" "mn \<le> m"
  shows "ends_with n (Repeat mn (Some m) C) Q"
proof (rule ends_withI)
  fix s r assume "r \<in> set (rmatch n (Repeat mn (Some m) C) s)"
  from repeat_step [of n C P, OF assms(1) this] assms(4)
  obtain p where p: "s = p @ r" "\<forall>c\<in>set p. P c" "mn \<le> length p" by auto
  with assms(3) have "p \<noteq> []" by auto
  then have "last p \<in> set p" by simp
  with p assms(2) \<open>p \<noteq> []\<close> show "\<exists>h. s = h @ r \<and> h \<noteq> [] \<and> Q (last h)" by blast
qed

lemma ends_with_mono: "ends_with n rx Q \<Longrightarrow> (\<And>c. Q c \<Longrightarrow> Q' c) \<Longrightarrow> ends_with n rx Q'"
  unfolding ends_with_def by blast

lemma ends_with_tld: "ends_with n (Repeat 2 (Some 63) tld_chars) is_tld_char"
proof (rule ends_with_Repeat_step [where P = is_tld_char])
  show "rmatch n tld_chars s = step is_tld_char s" for s
    by (simp add: tld_chars_def is_tld_char_def [abs_def])
qed simp_all

lemma ends_with_Digit: "ends_with n Digit is_digit"
  by (rule ends_with_step [where P = is_digit]) simp_all

lemma ends_with_digit_class:
  "ends_with n (Class [rng CHR ''1'' CHR ''9'']) is_digit"
  "ends_with n (Class [rng CHR ''0'' CHR ''4'']) is_digit"
  by (rule ends_with_step [where P = "class_mem [rng CHR ''1'' CHR ''9'']"],
      simp, simp add: digit_class_unat is_digit_unat,
      rule ends_with_step [where P = "class_mem [rng CHR ''0'' CHR ''4'']"],
      simp, simp add: digit_class_unat' is_digit_unat)

lemma ends_with_last_octet: "ends_with n last_octet is_digit"
  unfolding last_octet_def
  by (intro ends_with_Alt ends_with_Seq_Opt ends_with_seqs)
     (simp_all add: ends_with_Digit ends_with_digit_class)

lemma ends_with_ipv4: "ends_with n ipv4 is_digit"
  unfolding ipv4_def
  by (rule ends_with_seqs) (simp_all add: ends_with_Seq ends_with_last_octet)

lemma ends_with_domain: "ends_with n domain is_tld_char"
  unfolding domain_def
  by (rule ends_with_seqs) (simp_all add: ends_with_tld)

lemma ends_with_host: "ends_with n (Alt ipv4 domain) end_char"
proof (rule ends_with_Alt)
  show "ends_with n ipv4 end_char"
    by (rule ends_with_mono [OF ends_with_ipv4]) (simp add: end_char_def)
  show "ends_with n domain end_char"
    by (rule ends_with_mono [OF ends_with_domain]) (simp add: end_char_def)
qed

lemma ends_with_short_form: "ends_with n short_form is_tld_char"
  unfolding short_form_def
  by (rule ends_with_seqs) (simp_all add: ends_with_tld)

lemma ends_with_port_body: "ends_with n (Seq (ch CHR '':'') (Repeat 2 (Some 5) Digit)) is_digit"
proof (rule ends_with_Seq)
  show "ends_with n (Repeat 2 (Some 5) Digit) is_digit"
    by (rule ends_with_Repeat_step [where P = is_digit]) simp_all
qed

lemma path_tail:
  assumes "[] \<in> set (rmatch n resource_path t)"
  shows "t = [] \<or> (\<exists>c rest. t = c # rest \<and> is_path_start c \<and> (\<forall>x\<in>set rest. \<not> is_white_space x))"
proof -
  from assms consider "t = []"
    | "[] \<in> set (rmatch n (Seq (Class [one CHR ''/'', one CHR ''?'', one CHR ''#'']) (Star NonSpace)) t)"
    by (auto simp add: resource_path_def Opt_iff)
  then show ?thesis
  proof cases
    case 1
    then show ?thesis by simp
  next
    case 2
    then obtain c m where t: "t = c # m" and c: "is_path_start c"
      and m: "[] \<in> set (rmatch n (Repeat 0 None NonSpace) m)"
      by (auto simp add: step_iff is_path_start_def Star_def)
    from repeat_step [of n NonSpace "\<lambda>x. \<not> is_white_space x", OF _ m]
    have "\<forall>x\<in>set m. \<not> is_white_space x" by auto
    with t c show ?thesis by blast
  qed
qed

lemma full_form_end:
  assumes "[] \<in> set (rmatch n full_form s)"
  shows "\<exists>q t. s = q @ t \<and> q \<noteq> [] \<and> end_char (last q) \<and>
           (t = [] \<or> (\<exists>c rest. t = c # rest \<and> is_path_start c \<and> (\<forall>x\<in>set rest. \<not> is_white_space x)))"
proof -
  from assms obtain m1 m2 m3 m4 where m:
    "m1 \<in> set (rmatch n scheme s)" "m2 \<in> set (rmatch n basic_auth m1)"
    "m3 \<in> set (rmatch n (Alt ipv4 domain) m2)" "m4 \<in> set (rmatch n port m3)"
    "[] \<in> set (rmatch n resource_path m4)"
    unfolding full_form_def by (simp only: seqs_Cons_iff seqs_Nil_iff) blast
  from rmatch_suffix [OF m(1)] rmatch_suffix [OF m(2)] obtain x where x: "s = x @ m2"
    by (auto simp add: suffix_def)
  from ends_withD [OF ends_with_host m(3)] obtain h where h: "m2 = h @ m3" "h \<noteq> []" "end_char (last h)"
    by blast
  from m(4) consider "m4 = m3" | "m4 \<in> set (rmatch n (Seq (ch CHR '':'') (Repeat 2 (Some 5) Digit)) m3)"
    by (auto simp add: port_def Opt_iff)
  then obtain q where q: "s = q @ m4" "q \<noteq> []" "end_char (last q)"
  proof cases
    case 1
    with x h have "s = (x @ h) @ m4" "x @ h \<noteq> []" "end_char (last (x @ h))" by simp_all
    then show ?thesis by (rule that)
  next
    case 2
    from ends_withD [OF ends_with_port_body 2] obtain d where d: "m3 = d @ m4" "d \<noteq> []" "is_digit (last d)"
      by blast
    with x h have "s = (x @ h @ d) @ m4" "x @ h @ d \<noteq> []" "end_char (last (x @ h @ d))"
      by (simp_all add: end_char_def)
    then show ?thesis by (rule that)
  qed
  with path_tail [OF m(5)] show ?thesis by blast
qed

lemma list_case_SomeD: "(case xs of [] \<Rightarrow> None | g # _ \<Rightarrow> Some g) = Some y \<Longrightarrow> y \<in> set xs"
  by (cases xs) auto

lemma match_at_SomeD:
  assumes "match_at n s = Some m"
  shows "[] \<in> set (rmatch n URL_GROUP2 (m ! URL_GROUP_IN_MATCH))
         \<and> ((m ! URL_GROUP_IN_MATCH = s \<and> length s = n)
              \<or> (\<exists>c. s = c # m ! URL_GROUP_IN_MATCH \<and> is_white_space c))"
proof -
  let ?L = "[[take (length s - length r2) s, take (length s - length r1) s,
              take (length r1 - length r2) r1].
              r1 \<leftarrow> rmatch n URL_GROUP1 s, r2 \<leftarrow> rmatch n URL_GROUP2 r1,
              r3 \<leftarrow> rmatch n LineEnd r2]"
  from assms have "m \<in> set ?L" unfolding match_at_def by (rule list_case_SomeD)
  then obtain r1 r2 where r: "r1 \<in> set (rmatch n URL_GROUP1 s)" "r2 \<in> set (rmatch n URL_GROUP2 r1)"
    "r2 = []" "m = [take (length s - length r2) s, take (length s - length r1) s,
                    take (length r1 - length r2) r1]"
    by (auto split: if_splits)
  then have "m ! URL_GROUP_IN_MATCH = r1" by (simp add: URL_GROUP_IN_MATCH_def)
  moreover from r(1) have "(r1 = s \<and> length s = n) \<or> (\<exists>c. s = c # r1 \<and> is_white_space c)"
    by (auto simp add: URL_GROUP1_def step_iff split: if_splits)
  ultimately show ?thesis using r by auto
qed

lemma scan_SomeD: "scan n s = Some m \<Longrightarrow> \<exists>s'. suffix s' s \<and> match_at n s' = Some m"
proof (induction s)
  case Nil
  then show ?case by auto
next
  case (Cons c s)
  show ?case
  proof (cases "match_at n (c # s)")
    case None
    with Cons obtain s' where "suffix s' s" "match_at n s' = Some m" by auto
    then show ?thesis by (auto simp add: suffix_Cons)
  next
    case (Some a)
    with Cons.prems show ?thesis by auto
  qed
qed

lemma getUrlAtTextEnd_SomeD:
  assumes "getUrlAtTextEnd text = Some r"
  shows "[] \<in> set (rmatch (length text) URL_GROUP2 r)"
    and "\<exists>pre. text = pre @ r \<and> (pre = [] \<or> is_white_space (last pre))"
proof -
  from assms obtain m where m: "scan (length text) text = Some m" "r = m ! URL_GROUP_IN_MATCH"
    unfolding getUrlAtTextEnd_def URL_REG_EXP_exec_def by (auto split: option.splits)
  then obtain s' where s': "suffix s' text" "match_at (length text) s' = Some m"
    by (blast dest: scan_SomeD)
  from match_at_SomeD [OF s'(2)] m(2) show "[] \<in> set (rmatch (length text) URL_GROUP2 r)" by simp
  from match_at_SomeD [OF s'(2)] m(2) consider "r = s'" "length s' = length text"
    | c where "s' = c # r" "is_white_space c" by blast
  then show "\<exists>pre. text = pre @ r \<and> (pre = [] \<or> is_white_space (last pre))"
  proof cases
    case 1
    with s'(1) have "text = [] @ r" by (auto simp add: suffix_def)
    then show ?thesis by blast
  next
    case 2
    with s'(1) obtain x where "text = x @ c # r" by (auto simp add: suffix_def)
    with 2 have "text = (x @ [c]) @ r \<and> is_white_space (last (x @ [c]))" by simp
    then show ?thesis by blast
  qed
qed

lemma full_form_not_before_token:
  assumes full: "[] \<in> set (rmatch n full_form r)"
    and eq: "pre @ tok = pre' @ r"
    and pre: "pre = [] \<or> is_white_space (last pre)"
    and tok: "tok \<noteq> []" "\<not> end_char (last tok)"
    and T3: "\<And>v c rest. tok = v @ c # rest \<Longrightarrow> is_path_start c \<Longrightarrow>
              (v \<noteq> [] \<and> \<not> end_char (last v)) \<or> (v = [] \<and> (pre = [] \<or> \<not> end_char (last pre)))"
  shows False
proof -
  from full_form_end [OF full] obtain q t where qt: "r = q @ t" "q \<noteq> []" "end_char (last q)"
    "t = [] \<or> (\<exists>c rest. t = c # rest \<and> is_path_start c \<and> (\<forall>x\<in>set rest. \<not> is_white_space x))"
    by blast
  show False
  proof (cases "t = []")
    case True
    with qt eq have "pre @ tok = pre' @ q" by simp
    then have "last (pre @ tok) = last (pre' @ q)" by simp
    with tok(1) qt(2) have "last tok = last q" by simp
    with tok(2) qt(3) show False by simp
  next
    case False
    with qt(4) obtain c rest where t: "t = c # rest" "is_path_start c" "\<forall>x\<in>set rest. \<not> is_white_space x"
      by blast
    define u where "u = pre' @ q"
    have u: "u \<noteq> []" "end_char (last u)" using qt(2,3) by (simp_all add: u_def)
    have c: "\<not> is_white_space c" using t(2) by (auto simp add: is_path_start_unat is_white_space_unat)
    from eq qt(1) t(1) have "pre @ tok = u @ c # rest" by (simp add: u_def)
    then consider us where "pre = u @ us" "us @ tok = c # rest"
      | us where "pre @ us = u" "tok = us @ c # rest"
      by (auto simp add: append_eq_append_conv2)
    then show False
    proof cases
      case 1
      show False
      proof (cases "us = []")
        case True
        with 1 have "tok = [] @ c # rest" "pre = u" by simp_all
        from T3 [OF this(1) t(2)] \<open>pre = u\<close> u show False by simp
      next
        case False
        with 1(1) pre have ws: "is_white_space (last us)" by auto
        from False have "last us \<in> set us" by simp
        also from 1(2) have "set us \<subseteq> set (c # rest)" by (metis set_append sup_ge1)
        finally show False using ws c t(3) by auto
      qed
    next
      case 2
      from T3 [OF 2(2) t(2)] show False
      proof
        assume "us \<noteq> [] \<and> \<not> end_char (last us)"
        with 2(1) u show False by auto
      next
        assume "us = [] \<and> (pre = [] \<or> \<not> end_char (last pre))"
        with 2(1) u show False by auto
      qed
    qed
  qed
qed

lemma no_match_before_token:
  assumes pre: "pre = [] \<or> is_white_space (last pre)"
    and tok: "tok \<noteq> []" "\<not> end_char (last tok)"
    and T3: "\<And>v c rest. tok = v @ c # rest \<Longrightarrow> is_path_start c \<Longrightarrow>
              (v \<noteq> [] \<and> \<not> end_char (last v)) \<or> (v = [] \<and> (pre = [] \<or> \<not> end_char (last pre)))"
  shows "getUrlAtTextEnd (pre @ tok) = None"
proof (rule ccontr)
  assume "getUrlAtTextEnd (pre @ tok) \<noteq> None"
  then obtain r where r: "getUrlAtTextEnd (pre @ tok) = Some r" by auto
  from getUrlAtTextEnd_SomeD [OF r] obtain pre' where
    m: "[] \<in> set (rmatch (length (pre @ tok)) URL_GROUP2 r)" and eq: "pre @ tok = pre' @ r"
    by blast
  from m consider "[] \<in> set (rmatch (length (pre @ tok)) full_form r)"
    | "[] \<in> set (rmatch (length (pre @ tok)) short_form r)"
    by (auto simp add: URL_GROUP2_def)
  then show False
  proof cases
    case 1
    show False
    proof (rule full_form_not_before_token [OF 1 eq pre tok])
      fix v c rest
      assume "tok = v @ c # rest" "is_path_start c"
      then show "(v \<noteq> [] \<and> \<not> end_char (last v)) \<or> (v = [] \<and> (pre = [] \<or> \<not> end_char (last pre)))"
        by (rule T3)
    qed
  next
    case 2
    from ends_withD [OF ends_with_short_form 2] have "r \<noteq> []" "is_tld_char (last r)" by auto
    moreover from eq have "last (pre @ tok) = last (pre' @ r)" by simp
    ultimately have "is_tld_char (last tok)" using tok(1) by simp
    with tok(2) show False by (simp add: end_char_def)
  qed
qed

lemma not_end_char_dot: "\<not> end_char 0x2E"
  by (simp add: end_char_def is_digit_unat is_tld_char_unat)

lemma path_start_in_www:
  assumes "sch \<in> {[], js ''http://'', js ''https://'', js ''ftp://''}"
    and "sch @ js ''www.'' = v @ c # rest" "is_path_start c"
  shows "v \<noteq> [] \<and> \<not> end_char (last v)"
  using assms
  by (auto simp add: js_def Cons_eq_append_conv is_path_start_unat end_char_def is_digit_unat
      is_tld_char_unat)

lemma path_start_in_slashes_www:
  assumes "js ''//www.'' = v @ c # rest" "is_path_start c"
  shows "(v \<noteq> [] \<and> \<not> end_char (last v)) \<or> v = []"
  using assms
  by (auto simp add: js_def Cons_eq_append_conv is_path_start_unat end_char_def is_digit_unat
      is_tld_char_unat)

lemma low_white_space_not_end_char:
  "is_white_space c \<Longrightarrow> c < 0xA1 \<Longrightarrow> \<not> end_char c"
  by (simp add: is_white_space_unat end_char_def is_digit_unat is_tld_char_unat word_less_nat_alt; presburger)

lemma URL_GROUP2_nonempty: "[] \<in> set (rmatch n URL_GROUP2 s) \<Longrightarrow> s \<noteq> []"
proof -
  assume "[] \<in> set (rmatch n URL_GROUP2 s)"
  then consider "[] \<in> set (rmatch n full_form s)" | "[] \<in> set (rmatch n short_form s)"
    by (auto simp add: URL_GROUP2_def)
  then show "s \<noteq> []"
  proof cases
    case 1
    from full_form_end [OF 1] show ?thesis by auto
  next
    case 2
    from ends_withD [OF ends_with_short_form 2] show ?thesis by auto
  qed
qed

lemma getUrlAtTextEnd_length:
  assumes "getUrlAtTextEnd text = Some url"
  shows "url \<noteq> []" "length url \<le> length text"
proof -
  from getUrlAtTextEnd_SomeD(1) [OF assms] show "url \<noteq> []" by (rule URL_GROUP2_nonempty)
  from getUrlAtTextEnd_SomeD(2) [OF assms] show "length url \<le> length text" by auto
qed

lemma testCallback_length:
  assumes "testCallback text = Some url"
  shows "url \<noteq> []" "Suc (length url) \<le> length text"
proof -
  from assms have s: "isSingleSpaceAtTheEnd text"
    and u: "getUrlAtTextEnd (substr0 text (int (length text) - 1)) = Some url"
    by (auto simp add: testCallback_def split: if_splits option.splits)
  from s have l: "4 < length text"
    by (simp add: isSingleSpaceAtTheEnd_def MIN_LINK_LENGTH_WITH_SPACE_AT_END_def)
  from getUrlAtTextEnd_length [OF u] show "url \<noteq> []" by simp
  from l have "length (substr0 text (int (length text) - 1)) = length text - 1"
    by (simp add: substr0_def)
  with getUrlAtTextEnd_length(2) [OF u] l show "Suc (length url) \<le> length text" by simp
qed

lemma getShiftedBy_back:
  "getShiftedBy p (- int k) = p\<lparr>offset := offset p - k\<rparr>"
proof -
  have "(if int (offset p) - int k < 0 then 0 else nat (int (offset p) - int k)) = offset p - k"
    by (cases "int (offset p) - int k < 0") (simp_all add: nat_diff_distrib)
  then show ?thesis by (simp add: getShiftedBy_def Let_def)
qed

lemma getShiftedBy_forth:
  "getShiftedBy p (int k) = p\<lparr>offset := offset p + k\<rparr>"
  by (simp add: getShiftedBy_def Let_def nat_add_distrib)

subsection \<open>How a match begins\<close>

lemma to_upper_fixed:
  "to_upper x = 0x2F \<longleftrightarrow> x = 0x2F" "to_upper x = 0x3A \<longleftrightarrow> x = 0x3A" "to_upper x = 0x40 \<longleftrightarrow> x = 0x40"
  by ((simp add: word_unat_eq_iff to_upper_unat; presburger)+)

lemma to_upper_literals:
  "map to_upper (js ''//'') = js ''//''" "map to_upper (js ''http'') = js ''HTTP''"
  "map to_upper (js ''ftp'') = js ''FTP''" "to_upper (of_char CHR '':'') = 0x3A"
  "to_upper (of_char CHR ''s'') = of_char CHR ''S''" "to_upper (of_char CHR ''w'') = of_char CHR ''W''"
  "to_upper (of_char CHR ''@'') = 0x40"
  "to_upper 0x3A = 0x3A" "to_upper 0x73 = 0x53" "to_upper 0x77 = 0x57" "to_upper 0x40 = 0x40"
  "to_upper 0x2F = 0x2F"
  by (simp_all add: js_def to_upper_def)

lemma slashes_only: "map to_upper p = js ''//'' \<Longrightarrow> p = js ''//''"
  by (auto simp add: js_def to_upper_fixed)

lemma Seq_iff:
  "x \<in> set (rmatch n (Seq a b) s) \<longleftrightarrow> (\<exists>m\<in>set (rmatch n a s). x \<in> set (rmatch n b m))"
  by simp

lemma Alt_iff:
  "x \<in> set (rmatch n (Alt a b) s) \<longleftrightarrow> x \<in> set (rmatch n a s) \<or> x \<in> set (rmatch n b s)"
  by simp

lemma ch_iff:
  "x \<in> set (rmatch n (ch c) s) \<longleftrightarrow> (\<exists>y. s = y # x \<and> to_upper y = to_upper (of_char c))"
  by (simp add: ch_def step_iff)

lemma scheme_prefix:
  assumes "m1 \<in> set (rmatch n scheme r)"
  shows "\<exists>p. r = p @ js ''//'' @ m1 \<and> map to_upper p \<in> {[], js ''HTTP:'', js ''HTTPS:'', js ''FTP:''}"
proof -
  let ?name = "Alt (Seq (str ''http'') (Opt (ch CHR ''s''))) (str ''ftp'')"
  from assms obtain m where m: "m \<in> set (rmatch n (Opt (Seq ?name (ch CHR '':''))) r)"
    and "m1 \<in> set (rmatch n (str ''//'') m)"
    unfolding scheme_def by (simp only: Seq_iff) blast
  then obtain p2 where "m = p2 @ m1" "map to_upper p2 = js ''//''"
    by (auto simp add: str_iff to_upper_literals)
  then have m1: "m = js ''//'' @ m1" by (simp add: slashes_only)
  from m consider "m = r" | "m \<in> set (rmatch n (Seq ?name (ch CHR '':'')) r)"
    by (auto simp add: Opt_iff)
  then show ?thesis
  proof cases
    case 1
    with m1 have "r = [] @ js ''//'' @ m1" by simp
    then show ?thesis by blast
  next
    case 2
    then obtain m' where m': "m' \<in> set (rmatch n ?name r)" and c: "m \<in> set (rmatch n (ch CHR '':'') m')"
      by (simp only: Seq_iff) blast
    from c obtain x where x: "m' = x # m" "x = 0x3A"
      by (auto simp add: ch_iff to_upper_literals to_upper_fixed)
    from m' consider m'' where "m'' \<in> set (rmatch n (str ''http'') r)" "m' \<in> set (rmatch n (Opt (ch CHR ''s'')) m'')"
      | "m' \<in> set (rmatch n (str ''ftp'') r)"
      by (simp only: Seq_iff Alt_iff) blast
    then show ?thesis
    proof cases
      case 1
      then obtain p4 where p4: "r = p4 @ m''" "map to_upper p4 = js ''HTTP''"
        by (auto simp add: str_iff to_upper_literals)
      from 1(2) consider "m' = m''" | y where "m'' = y # m'" "to_upper y = 0x53"
        by (auto simp add: Opt_iff ch_iff to_upper_literals)
      then show ?thesis
      proof cases
        case 1
        with p4 x m1 have "r = (p4 @ [0x3A]) @ js ''//'' @ m1 \<and> map to_upper (p4 @ [0x3A]) = js ''HTTP:''"
          by (simp add: js_def to_upper_def)
        then show ?thesis by blast
      next
        case 2
        with p4 x m1 have "r = (p4 @ [y, 0x3A]) @ js ''//'' @ m1 \<and> map to_upper (p4 @ [y, 0x3A]) = js ''HTTPS:''"
          by (simp add: js_def to_upper_def)
        then show ?thesis by blast
      qed
    next
      case 2
      then obtain p3 where p3: "r = p3 @ m'" "map to_upper p3 = js ''FTP''"
        by (auto simp add: str_iff to_upper_literals)
      with x m1 have "r = (p3 @ [0x3A]) @ js ''//'' @ m1 \<and> map to_upper (p3 @ [0x3A]) = js ''FTP:''"
        by (simp add: js_def to_upper_def)
      then show ?thesis by blast
    qed
  qed
qed

lemma full_form_start:
  assumes "m \<in> set (rmatch n full_form r)"
  shows "starts_with_slashes r"
proof -
  from assms obtain m1 where "m1 \<in> set (rmatch n scheme r)"
    unfolding full_form_def by (simp only: seqs_Cons_iff) blast
  from scheme_prefix [OF this] show ?thesis unfolding starts_with_slashes_def by blast
qed

lemma short_form_start:
  assumes "m \<in> set (rmatch n short_form r)"
  shows "starts_like_short_form r"
proof -
  from assms obtain m1 where
    "m1 \<in> set (rmatch n (Alt (seqs [ch CHR ''w'', ch CHR ''w'', ch CHR ''w'', AnyChar])
                             (Seq (Plus NonSpace) (ch CHR ''@''))) r)"
    unfolding short_form_def by (simp only: seqs_Cons_iff) blast
  then consider "m1 \<in> set (rmatch n (seqs [ch CHR ''w'', ch CHR ''w'', ch CHR ''w'', AnyChar]) r)"
    | "m1 \<in> set (rmatch n (Seq (Plus NonSpace) (ch CHR ''@'')) r)"
    by (simp only: Alt_iff) blast
  then show ?thesis
  proof cases
    case 1
    then obtain a b c d where "r = a # b # c # d # m1"
      "to_upper a = 0x57" "to_upper b = 0x57" "to_upper c = 0x57"
      by (auto simp add: seqs_Cons_iff seqs_Nil_iff ch_iff step_iff to_upper_literals simp del: seqs.simps)
    then have "r = [a, b, c] @ (d # m1) \<and> map to_upper [a, b, c] = js ''WWW'' \<and> d # m1 \<noteq> []"
      by (simp add: js_def)
    then show ?thesis unfolding starts_like_short_form_def by blast
  next
    case 2
    then obtain m' where m': "m' \<in> set (rmatch n (Plus NonSpace) r)" "m' = 0x40 # m1"
      by (auto simp add: Seq_iff ch_iff to_upper_literals to_upper_fixed simp del: rmatch.simps(7))
    from rmatch_suffix [OF m'(1)] m'(2) have "0x40 \<in> set r" by (auto simp add: suffix_def)
    then show ?thesis by (simp add: starts_like_short_form_def)
  qed
qed

lemma getUrlAtTextEnd_start:
  assumes "getUrlAtTextEnd text = Some r"
  shows "starts_with_slashes r \<or> starts_like_short_form r"
proof -
  from getUrlAtTextEnd_SomeD(1) [OF assms]
  consider "[] \<in> set (rmatch (length text) full_form r)" | "[] \<in> set (rmatch (length text) short_form r)"
    by (auto simp add: URL_GROUP2_def)
  then show ?thesis by cases (auto dest: full_form_start short_form_start)
qed

lemma ipv4_rejects_listed:
  "list_all (\<lambda>a. rmatch n ipv4 (decimal a @ 0x2E # rest) = []) (0 # [224..<256])"
  by (simp add: upt_rec_numeral decimal.simps ipv4_def first_octet_def Opt_def ch_def rng_def
      one_def class_mem_def in_ranges_def to_upper_def to_lower_def is_digit_def rmatch.simps(9))

lemma ipv4_rejects_first_octet:
  assumes "(a = 0 \<or> 224 \<le> a) \<and> a \<le> 255"
  shows "rmatch n ipv4 (decimal a @ 0x2E # rest) = []"
proof -
  have "a \<in> set (0 # [224..<256])"
    by (simp only: list.set set_upt) (use assms in auto)
  with ipv4_rejects_listed [of n rest] show ?thesis
    unfolding list_all_iff by blast
qed

lemma decimal_digits: "c \<in> set (decimal a) \<Longrightarrow> is_digit c"
proof (induction a arbitrary: c rule: decimal.induct)
  case (1 n)
  have d: "is_digit (of_nat (48 + k))" if "k < 10" for k :: nat
  proof -
    from that have "unat (of_nat (48 + k) :: code_unit) = 48 + k"
      by (intro of_nat_inverse [OF refl]) simp
    with that show ?thesis by (simp add: is_digit_unat)
  qed
  show ?case
  proof (cases "n < 10")
    case True
    with 1(2) d show ?thesis by (simp add: decimal.simps)
  next
    case False
    with 1(2) have "c \<in> set (decimal (n div 10)) \<or> c = of_nat (48 + n mod 10)"
      by (subst (asm) decimal.simps) auto
    with 1(1) [OF False] d [of "n mod 10"] show ?thesis by auto
  qed
qed

lemma decimal_nonempty: "decimal a \<noteq> []"
  by (subst decimal.simps) simp

lemma dotted_chars: "c \<in> set (dotted a b e d) \<Longrightarrow> is_digit c \<or> c = 0x2E"
  by (auto simp add: dotted_def js_def dest: decimal_digits)

lemma dotted_last: "dotted a b c d \<noteq> []" "is_digit (last (dotted a b c d))"
  using decimal_nonempty [of d] decimal_digits [of "last (decimal d)" d]
  by (simp_all add: dotted_def)

lemma digit_or_dot:
  assumes "is_digit c \<or> c = 0x2E"
  shows "\<not> is_white_space c" "\<not> is_tld_char c" "c \<noteq> 0x40"
  using assms
  by ((auto simp add: is_digit_unat is_white_space_unat is_tld_char_unat word_unat_eq_iff)+)

lemma split_at_prefix:
  "xs = p @ ys \<Longrightarrow> p = take (length p) xs \<and> ys = drop (length p) xs"
  by simp

lemma http_scheme_only:
  assumes eq: "js ''http://'' @ D = p @ js ''//'' @ m1"
    and p: "map to_upper p \<in> {[], js ''HTTP:'', js ''HTTPS:'', js ''FTP:''}"
  shows "m1 = D"
proof -
  have split: "p = take (length p) (js ''http://'' @ D)"
    "js ''//'' @ m1 = drop (length p) (js ''http://'' @ D)"
    using split_at_prefix [OF eq] by blast+
  have len: "length p = length (map to_upper p)" by simp
  from p consider "map to_upper p = []" | "map to_upper p = js ''HTTP:''"
    | "map to_upper p = js ''HTTPS:''" | "map to_upper p = js ''FTP:''"
    by auto
  then show ?thesis
  proof cases
    case 1
    with split(2) show ?thesis by (simp add: js_def)
  next
    case 2
    with len have "length p = 5" by (simp add: js_def)
    with split(2) show ?thesis by (simp add: js_def)
  next
    case 3
    with len have l: "length p = 6" by (simp add: js_def)
    with split(1) have "p = js ''http:/''" by (simp add: js_def)
    with 3 show ?thesis by (simp add: js_def to_upper_def)
  next
    case 4
    with len have l: "length p = 4" by (simp add: js_def)
    with split(1) have "p = js ''http''" by (simp add: js_def)
    with 4 show ?thesis by (simp add: js_def to_upper_def)
  qed
qed

lemma basic_auth_needs_at:
  assumes "m2 \<in> set (rmatch n basic_auth s)" "0x40 \<notin> set s"
  shows "m2 = s"
proof -
  from assms(1) consider "m2 = s"
    | "m2 \<in> set (rmatch n (seqs [Plus NonSpace, Opt (Seq (ch CHR '':'') (Star NonSpace)), ch CHR ''@'']) s)"
    by (auto simp add: basic_auth_def Opt_iff)
  then show ?thesis
  proof cases
    case 1
    then show ?thesis .
  next
    case 2
    then obtain x y where x: "x \<in> set (rmatch n (Plus NonSpace) s)"
      and y: "y \<in> set (rmatch n (Opt (Seq (ch CHR '':'') (Star NonSpace))) x)"
      and a: "m2 \<in> set (rmatch n (ch CHR ''@'') y)"
      by (simp only: seqs_Cons_iff seqs_Nil_iff) blast
    from a have "y = 0x40 # m2" by (auto simp add: ch_iff to_upper_literals to_upper_fixed)
    with rmatch_suffix [OF x] rmatch_suffix [OF y] have "0x40 \<in> set s"
      by (auto simp add: suffix_def)
    with assms(2) show ?thesis by simp
  qed
qed

lemma reserved_address_not_matched:
  assumes a: "(a = 0 \<or> 224 \<le> a) \<and> a \<le> 255"
  shows "getUrlAtTextEnd (js ''http://'' @ dotted a b c d) = None"
proof (rule ccontr)
  let ?D = "dotted a b c d"
  let ?t = "js ''http://'' @ ?D"
  assume "getUrlAtTextEnd ?t \<noteq> None"
  then obtain r where r: "getUrlAtTextEnd ?t = Some r" by auto
  from getUrlAtTextEnd_SomeD [OF r] obtain pre where
    m: "[] \<in> set (rmatch (length ?t) URL_GROUP2 r)" and eq: "?t = pre @ r"
    and pre: "pre = [] \<or> is_white_space (last pre)"
    by blast
  have D: "\<not> is_white_space x \<and> \<not> is_tld_char x \<and> x \<noteq> 0x40" if "x \<in> set ?D" for x
    using dotted_chars [OF that] digit_or_dot [of x] by blast
  have nows: "\<not> is_white_space x" if "x \<in> set ?t" for x
    using that D by (auto simp add: js_def is_white_space_def is_line_terminator_def)
  have "pre = []"
  proof (rule ccontr)
    assume "pre \<noteq> []"
    with pre eq have "is_white_space (last pre)" "last pre \<in> set ?t"
      by (simp_all del: append_assoc)
    with nows show False by blast
  qed
  with eq have rt: "r = ?t" by simp
  have lastD: "last ?t \<in> set ?D" using dotted_last(1) [of a b c d] by simp
  from m consider "[] \<in> set (rmatch (length ?t) full_form ?t)"
    | "[] \<in> set (rmatch (length ?t) short_form ?t)"
    unfolding rt by (auto simp add: URL_GROUP2_def)
  then show False
  proof cases
    case 2
    from ends_withD [OF ends_with_short_form 2] have "is_tld_char (last ?t)" by auto
    with D [OF lastD] show False by simp
  next
    case 1
    then obtain m1 m2 m3 where m1: "m1 \<in> set (rmatch (length ?t) scheme ?t)"
      and m2: "m2 \<in> set (rmatch (length ?t) basic_auth m1)"
      and m3: "m3 \<in> set (rmatch (length ?t) (Alt ipv4 domain) m2)"
      unfolding full_form_def by (simp only: seqs_Cons_iff) blast
    from scheme_prefix [OF m1] http_scheme_only have "m1 = ?D" by blast
    with basic_auth_needs_at [OF m2] D have "m2 = ?D" by blast
    have "?D = decimal a @ 0x2E # (decimal b @ js ''.'' @ decimal c @ js ''.'' @ decimal d)"
      by (simp add: dotted_def js_def)
    with ipv4_rejects_first_octet [OF a] have "rmatch (length ?t) ipv4 ?D = []" by simp
    with m3 \<open>m2 = ?D\<close> have "m3 \<in> set (rmatch (length ?t) domain ?D)" by simp
    from ends_withD [OF ends_with_domain this] obtain h where
      "?D = h @ m3" "h \<noteq> []" "is_tld_char (last h)" by blast
    then have "last h \<in> set ?D" "is_tld_char (last h)"
      by (metis Un_iff last_in_set set_append, simp)
    with D show False by blast
  qed
qed

section \<open>C1: the scheme, the slashes and the bare domain\<close>

lemma see_example_com: "getUrlAtTextEnd (js ''see example.com'') = None"
  by code_simp

lemma see_example_com_typed: "testCallback (js ''see example.com '') = None"
proof -
  have "substr0 (js ''see example.com '') (int (length (js ''see example.com '')) - 1)
        = js ''see example.com''"
    by (simp add: substr0_def js_def)
  then show ?thesis
    by (simp add: testCallback_def see_example_com)
qed

lemma see_www_example_com_typed:
  "testCallback (js ''see www.example.com '') = Some (js ''www.example.com'')"
  by code_simp

text \<open>
  C1, as the spec states it, fails: for the text \<^verbatim>\<open>see example.com\<close> the matcher returns
  \<^verbatim>\<open>null\<close>, not \<^verbatim>\<open>example.com\<close>, and typing a space after it gives the watcher's callback
  no result, so nothing reaches the normalizer.
\<close>

theorem bare_domain_not_matched:
  "getUrlAtTextEnd (js ''see example.com'') = None
   \<and> getUrlAtTextEnd (js ''see example.com'') \<noteq> Some (js ''example.com'')
   \<and> testCallback (js ''see example.com '') = None"
  using see_example_com see_example_com_typed by simp

text \<open>
  C1, amended. In the full form only the scheme name (\<^verbatim>\<open>http:\<close>, \<^verbatim>\<open>https:\<close>, \<^verbatim>\<open>ftp:\<close>)
  is optional; the \<^verbatim>\<open>//\<close> is required. Every result of \<^verbatim>\<open>getUrlAtTextEnd\<close> begins
  with \<^verbatim>\<open>//\<close>, or with a scheme name and \<^verbatim>\<open>//\<close>, or the way the short form begins
  (\<^verbatim>\<open>www\<close> and one more character, or an \<^verbatim>\<open>@\<close> in it). So \<^verbatim>\<open>see example.com\<close> gives
  \<^verbatim>\<open>null\<close>, while \<^verbatim>\<open>see //example.com\<close>, \<^verbatim>\<open>see https://example.com\<close> and
  \<^verbatim>\<open>see www.example.com\<close> give their last word.
\<close>

theorem scheme_slashes_required:
  "(getUrlAtTextEnd text = Some r \<longrightarrow> starts_with_slashes r \<or> starts_like_short_form r)
   \<and> getUrlAtTextEnd (js ''see example.com'') = None
   \<and> getUrlAtTextEnd (js ''see //example.com'') = Some (js ''//example.com'')
   \<and> getUrlAtTextEnd (js ''see https://example.com'') = Some (js ''https://example.com'')
   \<and> getUrlAtTextEnd (js ''see www.example.com'') = Some (js ''www.example.com'')"
proof (intro conjI impI)
  show "starts_with_slashes r \<or> starts_like_short_form r" if "getUrlAtTextEnd text = Some r"
    using that by (rule getUrlAtTextEnd_start)
  show "getUrlAtTextEnd (js ''see example.com'') = None"
    by (rule see_example_com)
  show "getUrlAtTextEnd (js ''see //example.com'') = Some (js ''//example.com'')"
    by code_simp
  show "getUrlAtTextEnd (js ''see https://example.com'') = Some (js ''https://example.com'')"
    by code_simp
  show "getUrlAtTextEnd (js ''see www.example.com'') = Some (js ''www.example.com'')"
    by code_simp
qed

theorem scheme_slashes_required_witness:
  "getUrlAtTextEnd (js ''mail joe@example.com'') = Some (js ''joe@example.com'')
   \<and> (starts_with_slashes (js ''joe@example.com'') \<or> starts_like_short_form (js ''joe@example.com''))
   \<and> \<not> starts_with_slashes (js ''example.com'')
   \<and> \<not> starts_like_short_form (js ''example.com'')
   \<and> handle flat_engine (ChangeData (createRange (at 0) (at 16)) \<lparr>isTyping = True\<rparr>)
         (init (Some (js ''https://'')) (plain ''see example.com ''))
       = init (Some (js ''https://'')) (plain ''see example.com '')
   \<and> handle flat_engine (ChangeData (createRange (at 0) (at 20)) \<lparr>isTyping = True\<rparr>)
         (init (Some (js ''https://'')) (plain ''see www.example.com ''))
       = (init (Some (js ''https://''))
            (plain ''see '' @ linked ''https://www.example.com'' ''www.example.com'' @ plain '' ''))
           \<lparr>undoOnBackspaceRequests := 1\<rparr>"
proof -
  have e: "getUrlAtTextEnd (js ''mail joe@example.com'') = Some (js ''joe@example.com'')"
    by code_simp
  have n1: "\<not> starts_with_slashes (js ''example.com'')"
    by (auto simp add: starts_with_slashes_def js_def append_eq_Cons_conv Cons_eq_append_conv)
  have n2: "\<not> starts_like_short_form (js ''example.com'')"
    by (auto simp add: starts_like_short_form_def js_def append_eq_Cons_conv Cons_eq_append_conv
        to_upper_def split: if_splits)
  have h1: "handle flat_engine (ChangeData (createRange (at 0) (at 16)) \<lparr>isTyping = True\<rparr>)
         (init (Some (js ''https://'')) (plain ''see example.com ''))
       = init (Some (js ''https://'')) (plain ''see example.com '')"
    by code_simp
  have h2: "handle flat_engine (ChangeData (createRange (at 0) (at 20)) \<lparr>isTyping = True\<rparr>)
         (init (Some (js ''https://'')) (plain ''see www.example.com ''))
       = (init (Some (js ''https://''))
            (plain ''see '' @ linked ''https://www.example.com'' ''www.example.com'' @ plain '' ''))
           \<lparr>undoOnBackspaceRequests := 1\<rparr>"
    by code_simp
  from scheme_slashes_required [of "js ''mail joe@example.com''" "js ''joe@example.com''"]
    e n1 n2 h1 h2
  show ?thesis by simp
qed

section \<open>C2: a single space at the end\<close>

text \<open>
  C2. For every string, \<^verbatim>\<open>isSingleSpaceAtTheEnd\<close> is true exactly when the string is
  longer than 4, its last character is a space and the character before the last is
  not a space.
\<close>

theorem isSingleSpaceAtTheEnd_iff:
  "isSingleSpaceAtTheEnd text \<longleftrightarrow>
     (4 < length text \<and> (\<exists>pre c. text = pre @ [c, 0x20] \<and> c \<noteq> 0x20))"
proof (cases "4 < length text")
  case False
  then show ?thesis
    by (simp add: isSingleSpaceAtTheEnd_def MIN_LINK_LENGTH_WITH_SPACE_AT_END_def)
next
  case True
  then have "text \<noteq> []" by auto
  then obtain ys d where t: "text = ys @ [d]" by (metis rev_exhaust)
  with True have "ys \<noteq> []" by auto
  then obtain pre c where "ys = pre @ [c]" by (metis rev_exhaust)
  with t have t': "text = pre @ [c, d]" by simp
  show ?thesis using True unfolding t'
    by (auto simp add: isSingleSpaceAtTheEnd_def MIN_LINK_LENGTH_WITH_SPACE_AT_END_def
        char_at_def nth_append nat_diff_distrib)
qed

theorem isSingleSpaceAtTheEnd_iff_witness:
  "isSingleSpaceAtTheEnd (js ''t.co '') \<and> \<not> isSingleSpaceAtTheEnd (js ''t.co  '')
   \<and> \<not> isSingleSpaceAtTheEnd (js ''a.b '') \<and> \<not> isSingleSpaceAtTheEnd (js ''t.co'')"
  using isSingleSpaceAtTheEnd_iff [of "js ''t.co ''"] isSingleSpaceAtTheEnd_iff [of "js ''t.co  ''"]
    isSingleSpaceAtTheEnd_iff [of "js ''a.b ''"] isSingleSpaceAtTheEnd_iff [of "js ''t.co''"]
  by (simp add: js_def append_eq_Cons_conv)

section \<open>C3: anchored at the end, and nothing after the dot of www\<close>

text \<open>
  C3, as the spec states it, fails in its second half: a text can end in \<^verbatim>\<open>www.\<close> with
  nothing after it and still be matched. In the first text the last word, after two
  ideographic spaces (\<^verbatim>\<open>U+3000\<close>, a white-space character that the class
  \<^verbatim>\<open>[a-z\u00a1-\uffff]\<close> of the top-level domain contains), is \<^verbatim>\<open>//www.\<close>, and the whole
  text is matched, with \<^verbatim>\<open>//www.\<close> as the resource path. In \<^verbatim>\<open>see http://a.com/www.\<close>
  the characters \<^verbatim>\<open>www.\<close> end the resource path of a full-form URL.
\<close>

theorem www_dot_at_end_matched:
  "getUrlAtTextEnd (js ''//a.b'' @ [0x3000, 0x3000] @ js ''//www.'')
     = Some (js ''//a.b'' @ [0x3000, 0x3000] @ js ''//www.'')
   \<and> is_white_space 0x3000
   \<and> getUrlAtTextEnd (js ''see http://a.com/www.'') = Some (js ''http://a.com/www.'')
   \<and> suffix (js ''www.'') (js ''see http://a.com/www.'')"
  by code_simp

text \<open>
  C3, amended. Whatever \<^verbatim>\<open>getUrlAtTextEnd\<close> returns is a suffix of the text, and it starts
  at the start of the text or right after a white-space character. When the last word of
  the text is \<^verbatim>\<open>www.\<close>, alone or behind \<^verbatim>\<open>http://\<close>, \<^verbatim>\<open>https://\<close> or \<^verbatim>\<open>ftp://\<close>, that is,
  when this candidate stands at the start of the text or after white space, the result is
  \<^verbatim>\<open>null\<close>. The same holds for \<^verbatim>\<open>//www.\<close> at the start of the text or after a white-space
  character below \<^verbatim>\<open>U+00A1\<close>.
\<close>

theorem getUrlAtTextEnd_anchored:
  "(getUrlAtTextEnd text = Some r \<longrightarrow>
      (\<exists>pre. text = pre @ r \<and> (pre = [] \<or> is_white_space (last pre))))
   \<and> ((pre = [] \<or> is_white_space (last pre))
        \<and> sch \<in> {[], js ''http://'', js ''https://'', js ''ftp://''} \<longrightarrow>
      getUrlAtTextEnd (pre @ sch @ js ''www.'') = None)
   \<and> (pre = [] \<or> (is_white_space (last pre) \<and> last pre < 0xA1) \<longrightarrow>
      getUrlAtTextEnd (pre @ js ''//www.'') = None)"
proof (intro conjI impI)
  assume "getUrlAtTextEnd text = Some r"
  then show "\<exists>pre. text = pre @ r \<and> (pre = [] \<or> is_white_space (last pre))"
    by (rule getUrlAtTextEnd_SomeD)
next
  assume a: "(pre = [] \<or> is_white_space (last pre))
     \<and> sch \<in> {[], js ''http://'', js ''https://'', js ''ftp://''}"
  show "getUrlAtTextEnd (pre @ sch @ js ''www.'') = None"
  proof (rule no_match_before_token)
    show "pre = [] \<or> is_white_space (last pre)" using a by simp
    show "sch @ js ''www.'' \<noteq> []" by (simp add: js_def)
    show "\<not> end_char (last (sch @ js ''www.''))" using not_end_char_dot by (simp add: js_def)
    show "(v \<noteq> [] \<and> \<not> end_char (last v)) \<or> (v = [] \<and> (pre = [] \<or> \<not> end_char (last pre)))"
      if "sch @ js ''www.'' = v @ c # rest" "is_path_start c" for v c rest
      using path_start_in_www [OF _ that] a by blast
  qed
next
  assume a: "pre = [] \<or> (is_white_space (last pre) \<and> last pre < 0xA1)"
  show "getUrlAtTextEnd (pre @ js ''//www.'') = None"
  proof (rule no_match_before_token)
    show "pre = [] \<or> is_white_space (last pre)" using a by blast
    show "js ''//www.'' \<noteq> []" by (simp add: js_def)
    show "\<not> end_char (last (js ''//www.''))" using not_end_char_dot by (simp add: js_def)
    show "(v \<noteq> [] \<and> \<not> end_char (last v)) \<or> (v = [] \<and> (pre = [] \<or> \<not> end_char (last pre)))"
      if "js ''//www.'' = v @ c # rest" "is_path_start c" for v c rest
      using path_start_in_slashes_www [OF that] a low_white_space_not_end_char by blast
  qed
qed

theorem getUrlAtTextEnd_anchored_witness:
  "getUrlAtTextEnd (js ''see www.example.com'') = Some (js ''www.example.com'')
   \<and> (\<exists>pre. js ''see www.example.com'' = pre @ js ''www.example.com''
          \<and> (pre = [] \<or> is_white_space (last pre)))
   \<and> getUrlAtTextEnd (js ''go to http://www.'') = None
   \<and> getUrlAtTextEnd (js ''go to //www.'') = None
   \<and> getUrlAtTextEnd (js ''//www.'') = None"
proof -
  have e: "getUrlAtTextEnd (js ''see www.example.com'') = Some (js ''www.example.com'')"
    by code_simp
  have w: "is_white_space (last (js ''go to '')) \<and> last (js ''go to '') < 0xA1"
    by (simp add: js_def is_white_space_def)
  from getUrlAtTextEnd_anchored [of "js ''see www.example.com''" "js ''www.example.com''"
      "js ''go to ''" "js ''http://''"]
    getUrlAtTextEnd_anchored [of "[]" "[]" "[]" "[]"] e w
  show ?thesis by (simp add: js_def)
qed

section \<open>C4: the dotted address\<close>

text \<open>
  C4. The branch for a dotted address matches no address whose first octet is 0 or lies
  in 224 to 255, whatever follows it, and \<^verbatim>\<open>getUrlAtTextEnd\<close> returns \<^verbatim>\<open>null\<close> for
  \<^verbatim>\<open>http://\<close> followed by such an address; so it does for \<^verbatim>\<open>http://224.0.0.1\<close> and
  \<^verbatim>\<open>http://0.0.0.0\<close>. The branch matches \<^verbatim>\<open>192.168.1.1\<close>, and \<^verbatim>\<open>http://192.168.1.1\<close> is
  returned whole.
\<close>

theorem ipv4_first_octet_range:
  "((a = 0 \<or> 224 \<le> a) \<and> a \<le> 255 \<longrightarrow>
       rmatch n ipv4 (dotted a b c d @ rest) = []
       \<and> getUrlAtTextEnd (js ''http://'' @ dotted a b c d) = None)
   \<and> [] \<in> set (rmatch 11 ipv4 (js ''192.168.1.1''))
   \<and> getUrlAtTextEnd (js ''http://192.168.1.1'') = Some (js ''http://192.168.1.1'')
   \<and> getUrlAtTextEnd (js ''http://224.0.0.1'') = None
   \<and> getUrlAtTextEnd (js ''http://0.0.0.0'') = None"
proof (intro conjI impI)
  assume a: "(a = 0 \<or> 224 \<le> a) \<and> a \<le> 255"
  have "dotted a b c d @ rest
        = decimal a @ 0x2E # (decimal b @ js ''.'' @ decimal c @ js ''.'' @ decimal d @ rest)"
    by (simp add: dotted_def js_def)
  with ipv4_rejects_first_octet [OF a] show "rmatch n ipv4 (dotted a b c d @ rest) = []"
    by simp
  from a show "getUrlAtTextEnd (js ''http://'' @ dotted a b c d) = None"
    by (rule reserved_address_not_matched)
next
  show "[] \<in> set (rmatch 11 ipv4 (js ''192.168.1.1''))"
    by code_simp
  show "getUrlAtTextEnd (js ''http://192.168.1.1'') = Some (js ''http://192.168.1.1'')"
    by code_simp
  have e: "js ''http://224.0.0.1'' = js ''http://'' @ dotted 224 0 0 1"
    by (simp add: dotted_def decimal.simps js_def)
  show "getUrlAtTextEnd (js ''http://224.0.0.1'') = None"
    unfolding e by (rule reserved_address_not_matched) simp
  have z: "js ''http://0.0.0.0'' = js ''http://'' @ dotted 0 0 0 0"
    by (simp add: dotted_def decimal.simps js_def)
  show "getUrlAtTextEnd (js ''http://0.0.0.0'') = None"
    unfolding z by (rule reserved_address_not_matched) simp
qed

theorem ipv4_first_octet_range_witness:
  "dotted 255 255 255 255 = js ''255.255.255.255''
   \<and> rmatch 0 ipv4 (js ''255.255.255.255'') = []
   \<and> getUrlAtTextEnd (js ''http://255.255.255.255'') = None"
proof -
  have d: "dotted 255 255 255 255 = js ''255.255.255.255''"
    by (simp add: dotted_def decimal.simps js_def)
  have j: "js ''http://'' @ js ''255.255.255.255'' = js ''http://255.255.255.255''"
    by (simp add: js_def)
  from ipv4_first_octet_range [of 255 0 255 255 255 "[]"] show ?thesis
    unfolding d j by simp
qed

section \<open>C5 and C6: the commit and its guards\<close>



text \<open>
  The guard of C6 where it works: when a node that carries \<^verbatim>\<open>linkHref\<close> begins at the
  start of the range, \<^verbatim>\<open>_applyAutoLink\<close> changes nothing.
\<close>

lemma applyAutoLink_node_linked:
  "nodeAfter eng (document ed) (range_start r) = Some item \<Longrightarrow> hasAttribute eng item ''linkHref''
   \<Longrightarrow> applyAutoLink eng url r ed = ed"
  by (simp add: applyAutoLink_def linkIsAlreadySet_def Let_def)

text \<open>
  C6 fails on the code where the range starts inside a text node. The guard
  \<^verbatim>\<open>linkIsAlreadySet\<close> reads the node after the start of the range, not the attributes
  of the range's first character: when there is no such node it answers no, and
  \<^verbatim>\<open>_applyAutoLink\<close>, the other three conditions given, writes \<^verbatim>\<open>linkHref\<close> over the
  range and requests an undo step, whatever the characters of the range carry already.
\<close>

theorem applyAutoLink_no_node_after:
  "nodeAfter eng (document ed) (range_start r) = None \<longrightarrow>
     \<not> linkIsAlreadySet eng r (document ed)
     \<and> applyAutoLink eng url r ed =
         (let fullUrl = addLinkProtocolIfApplicable eng url (defaultProtocol ed) in
          if isEnabled ed \<and> checkAttributeInSelection eng (document ed) r ''linkHref''
             \<and> linkHasProtocol eng fullUrl
          then ed\<lparr>document := setAttribute eng ''linkHref'' fullUrl r (document ed),
                  undoOnBackspaceRequests := Suc (undoOnBackspaceRequests ed)\<rparr>
          else ed)"
  by (simp add: applyAutoLink_def persistAutoLink_def isLinkAllowedOnRange_def
      linkIsAlreadySet_def Let_def)

text \<open>
  The failing input. The paragraph holds \<^verbatim>\<open>see http://a.io\<close>, all of it one link to
  \<^verbatim>\<open>http://b.org\<close>, and a space typed after it. The range of the detected URL starts at
  offset 4, inside the linked text node: its first character carries \<^verbatim>\<open>linkHref\<close>, yet
  \<^verbatim>\<open>nodeAfter\<close> is \<^verbatim>\<open>null\<close> there. The range is linked again, to \<^verbatim>\<open>http://a.io\<close>, both
  when \<^verbatim>\<open>_applyAutoLink\<close> is called on it and when the space is typed.
\<close>

theorem applyAutoLink_relinks_inside_text_node:
  "snd ((linked ''http://b.org'' ''see http://a.io'' @ plain '' '') ! 4) = Some (js ''http://b.org'')
   \<and> nodeAfter flat_engine (linked ''http://b.org'' ''see http://a.io'' @ plain '' '') (at 4) = None
   \<and> \<not> linkIsAlreadySet flat_engine (createRange (at 4) (at 15))
         (linked ''http://b.org'' ''see http://a.io'' @ plain '' '')
   \<and> applyAutoLink flat_engine (js ''http://a.io'') (createRange (at 4) (at 15))
        (init None (linked ''http://b.org'' ''see http://a.io'' @ plain '' ''))
      = (init None (linked ''http://b.org'' ''see '' @ linked ''http://a.io'' ''http://a.io''
                    @ plain '' ''))
          \<lparr>undoOnBackspaceRequests := 1\<rparr>
   \<and> handle flat_engine (ChangeData (createRange (at 0) (at 16)) \<lparr>isTyping = True\<rparr>)
        (init None (linked ''http://b.org'' ''see http://a.io'' @ plain '' ''))
      = (init None (linked ''http://b.org'' ''see '' @ linked ''http://a.io'' ''http://a.io''
                    @ plain '' ''))
          \<lparr>undoOnBackspaceRequests := 1\<rparr>
   \<and> applyAutoLink flat_engine (js ''http://a.io'') (createRange (at 4) (at 15))
        (init None (linked ''http://b.org'' ''see http://a.io'' @ plain '' ''))
      \<noteq> init None (linked ''http://b.org'' ''see http://a.io'' @ plain '' '')"
proof -
  let ?doc = "linked ''http://b.org'' ''see http://a.io'' @ plain '' ''"
  let ?doc' = "linked ''http://b.org'' ''see '' @ linked ''http://a.io'' ''http://a.io'' @ plain '' ''"
  let ?r = "createRange (at 4) (at 15)"
  have c: "snd (?doc ! 4) = Some (js ''http://b.org'')"
    by code_simp
  have n: "flat_nodeAfter ?doc (at 4) = None" "range_start ?r = at 4"
    by code_simp+
  have u: "flat_addLinkProtocolIfApplicable (js ''http://a.io'') None = js ''http://a.io''"
    "flat_linkHasProtocol (js ''http://a.io'')"
    by code_simp+
  have d: "flat_setAttribute ''linkHref'' (js ''http://a.io'') ?r ?doc = ?doc'" "?doc' \<noteq> ?doc"
    by code_simp+
  have t: "handle flat_engine (ChangeData (createRange (at 0) (at 16)) \<lparr>isTyping = True\<rparr>)
             (init None ?doc) = (init None ?doc')\<lparr>undoOnBackspaceRequests := 1\<rparr>"
    by code_simp
  from applyAutoLink_no_node_after [of flat_engine "init None ?doc" ?r "js ''http://a.io''"]
    c n u d t
  show ?thesis
    by (simp add: flat_engine_def init_def)
qed

section \<open>C7: the range that is linked\<close>

text \<open>
  C7. Let the range \<open>r\<close> cover the text. On the typing path, when the callback finds
  \<open>url\<close>, the range passed to \<^verbatim>\<open>_applyAutoLink\<close> covers exactly \<open>length url\<close> positions
  and ends one position before the end of \<open>r\<close>, that is before the space just typed. In
  \<^verbatim>\<open>_checkAndApplyAutoLinkOnRange\<close>, when the matcher finds \<open>url\<close>, the range passed covers
  exactly \<open>length url\<close> positions and ends where \<open>r\<close> ends.
\<close>

theorem link_range_length:
  "covers r text \<longrightarrow>
     (testCallback text = Some url \<longrightarrow>
        covers (typingLinkRange r url) url
        \<and> getShiftedBy (range_end (typingLinkRange r url)) 1 = range_end r
        \<and> matched_data_handler eng \<lparr>md_batch = \<lparr>isTyping = True\<rparr>, md_range = r, md_url = url\<rparr> ed
            = applyAutoLink eng url (typingLinkRange r url) ed)
   \<and> (getUrlAtTextEnd text = Some url \<longrightarrow>
        covers (lineLinkRange r url) url
        \<and> range_end (lineLinkRange r url) = range_end r
        \<and> (getLastTextLine eng rangeToCheck (document ed) = (text, r) \<longrightarrow>
             checkAndApplyAutoLinkOnRange eng rangeToCheck ed
             = applyAutoLink eng url (lineLinkRange r url) ed))"
proof (intro impI conjI)
  assume c: "covers r text" and t: "testCallback text = Some url"
  from testCallback_length(2) [OF t] c have "Suc (length url) \<le> offset (range_end r)"
    by (simp add: covers_def)
  then show "covers (typingLinkRange r url) url"
    and "getShiftedBy (range_end (typingLinkRange r url)) 1 = range_end r"
    using getShiftedBy_back [of _ 1] getShiftedBy_forth [of _ 1]
    by (simp_all add: covers_def typingLinkRange_def getShiftedBy_back createRange_def Let_def)
  show "matched_data_handler eng \<lparr>md_batch = \<lparr>isTyping = True\<rparr>, md_range = r, md_url = url\<rparr> ed
            = applyAutoLink eng url (typingLinkRange r url) ed"
    by (simp add: matched_data_handler_def)
next
  assume c: "covers r text" and u: "getUrlAtTextEnd text = Some url"
  from getUrlAtTextEnd_length(2) [OF u] c have "length url \<le> offset (range_end r)"
    by (simp add: covers_def)
  then show "covers (lineLinkRange r url) url"
    by (simp add: covers_def lineLinkRange_def getShiftedBy_back createRange_def Let_def)
  show "range_end (lineLinkRange r url) = range_end r"
    by (simp add: lineLinkRange_def createRange_def)
  assume "getLastTextLine eng rangeToCheck (document ed) = (text, r)"
  with u getUrlAtTextEnd_length(1) [OF u]
  show "checkAndApplyAutoLinkOnRange eng rangeToCheck ed = applyAutoLink eng url (lineLinkRange r url) ed"
    by (simp add: checkAndApplyAutoLinkOnRange_def)
qed

theorem link_range_length_witness:
  "covers (createRange (at 0) (at 11)) (js ''see //a.io '')
   \<and> testCallback (js ''see //a.io '') = Some (js ''//a.io'')
   \<and> typingLinkRange (createRange (at 0) (at 11)) (js ''//a.io'') = createRange (at 4) (at 10)
   \<and> covers (createRange (at 4) (at 10)) (js ''//a.io'')
   \<and> covers (createRange (at 0) (at 10)) (js ''see //a.io'')
   \<and> getUrlAtTextEnd (js ''see //a.io'') = Some (js ''//a.io'')
   \<and> lineLinkRange (createRange (at 0) (at 10)) (js ''//a.io'') = createRange (at 4) (at 10)"
proof -
  have c: "covers (createRange (at 0) (at 11)) (js ''see //a.io '')"
    "covers (createRange (at 0) (at 10)) (js ''see //a.io'')"
    by (simp_all add: covers_def createRange_def at_def js_def)
  have t: "testCallback (js ''see //a.io '') = Some (js ''//a.io'')"
    by code_simp
  have u: "getUrlAtTextEnd (js ''see //a.io'') = Some (js ''//a.io'')"
    by code_simp
  have r: "typingLinkRange (createRange (at 0) (at 11)) (js ''//a.io'') = createRange (at 4) (at 10)"
    "lineLinkRange (createRange (at 0) (at 10)) (js ''//a.io'') = createRange (at 4) (at 10)"
    by (simp_all add: typingLinkRange_def lineLinkRange_def getShiftedBy_def createRange_def
        at_def js_def Let_def)
  from link_range_length [of "createRange (at 0) (at 11)" "js ''see //a.io ''" "js ''//a.io''"
      flat_engine "init None []" "createRange (at 0) (at 11)"]
    link_range_length [of "createRange (at 0) (at 10)" "js ''see //a.io''" "js ''//a.io''"
      flat_engine "init None []" "createRange (at 0) (at 10)"]
    c t u r
  show ?thesis by simp
qed

section \<open>C8 and C9: enablement and the typing batch\<close>

lemma applyAutoLink_isEnabled:
  "isEnabled (applyAutoLink eng url r ed) = isEnabled ed"
  "watcher_isEnabled (applyAutoLink eng url r ed) = watcher_isEnabled ed"
  by (simp_all add: applyAutoLink_def persistAutoLink_def Let_def)

lemma handle_binding:
  "watcher_isEnabled ed = isEnabled ed \<Longrightarrow>
   watcher_isEnabled (handle eng e ed) = isEnabled (handle eng e ed)"
  by (cases e)
     (simp_all add: selection_change_range_def set_isEnabled_def watcher_change_data_def
        matched_data_handler_def enter_executed_def shiftEnter_executed_def
        checkAndApplyAutoLinkOnRange_def applyAutoLink_isEnabled
        split: prod.splits option.splits)

lemma run_binding:
  "watcher_isEnabled ed = isEnabled ed \<Longrightarrow>
   watcher_isEnabled (run eng es ed) = isEnabled (run eng es ed)"
  by (induction es arbitrary: ed) (simp_all add: handle_binding)

text \<open>
  C8. After a change of the selection's range the plugin is enabled exactly when the
  anchor's parent is not a code block; in every state reached from \<^verbatim>\<open>init\<close> the
  watcher's \<^verbatim>\<open>isEnabled\<close> equals the plugin's; and while the plugin is disabled a change
  of the data makes the watcher do nothing.
\<close>

theorem enablement_mirrored:
  "isEnabled (handle eng (SelectionChangeRange inCodeBlock) ed) = (\<not> inCodeBlock)
   \<and> watcher_isEnabled (run eng es (init proto doc)) = isEnabled (run eng es (init proto doc))
   \<and> (\<not> isEnabled (run eng es (init proto doc)) \<longrightarrow>
        handle eng (ChangeData r b) (run eng es (init proto doc)) = run eng es (init proto doc))"
proof -
  have "watcher_isEnabled (run eng es (init proto doc)) = isEnabled (run eng es (init proto doc))"
    by (rule run_binding) (simp add: init_def)
  then show ?thesis
    by (simp add: selection_change_range_def set_isEnabled_def watcher_change_data_def)
qed

theorem enablement_mirrored_witness:
  "\<not> isEnabled (run flat_engine [SelectionChangeRange True] (init None (plain ''see //a.io '')))
   \<and> \<not> watcher_isEnabled (run flat_engine [SelectionChangeRange True] (init None (plain ''see //a.io '')))
   \<and> handle flat_engine (ChangeData (createRange (at 0) (at 11)) \<lparr>isTyping = True\<rparr>)
        (run flat_engine [SelectionChangeRange True] (init None (plain ''see //a.io '')))
      = run flat_engine [SelectionChangeRange True] (init None (plain ''see //a.io ''))"
  using enablement_mirrored [of flat_engine True "init None (plain ''see //a.io '')"
      "[SelectionChangeRange True]" None "plain ''see //a.io ''" "createRange (at 0) (at 11)"
      "\<lparr>isTyping = True\<rparr>"]
  by (simp add: selection_change_range_def set_isEnabled_def init_def)

text \<open>
  C9. A \<^verbatim>\<open>matched:data\<close> event whose batch is not a typing batch leaves the editor as it
  was: the handler returns before it computes a range or calls \<^verbatim>\<open>_applyAutoLink\<close>, and
  so does the whole reaction to the change of data.
\<close>

theorem not_typing_no_link:
  "\<not> isTyping b \<Longrightarrow>
   matched_data_handler eng \<lparr>md_batch = b, md_range = r, md_url = url\<rparr> ed = ed
   \<and> handle eng (ChangeData r0 b) ed = ed"
  by (simp add: matched_data_handler_def watcher_change_data_def split: prod.splits option.splits)

theorem not_typing_no_link_witness:
  "\<not> isTyping \<lparr>isTyping = False\<rparr>
   \<and> matched_data_handler flat_engine
        \<lparr>md_batch = \<lparr>isTyping = False\<rparr>, md_range = createRange (at 0) (at 11), md_url = js ''//a.io''\<rparr>
        (init None (plain ''see //a.io '')) = init None (plain ''see //a.io '')
   \<and> handle flat_engine (ChangeData (createRange (at 0) (at 11)) \<lparr>isTyping = False\<rparr>)
        (init None (plain ''see //a.io '')) = init None (plain ''see //a.io '')"
  using not_typing_no_link [of "\<lparr>isTyping = False\<rparr>" flat_engine "createRange (at 0) (at 11)"
      "js ''//a.io''" "init None (plain ''see //a.io '')" "createRange (at 0) (at 11)"]
  by simp

section \<open>C10: the dot that is not escaped\<close>

text \<open>
  C10. The dot after \<^verbatim>\<open>www\<close> in the short form is not escaped, so it matches any
  character that is not a line terminator: whatever such character stands between
  \<^verbatim>\<open>www\<close> and \<^verbatim>\<open>foo.com\<close>, \<^verbatim>\<open>getUrlAtTextEnd\<close> returns the whole text. In particular
  \<^verbatim>\<open>wwwXfoo.com\<close>, which does not start with \<^verbatim>\<open>www.\<close> and contains neither \<^verbatim>\<open>@\<close> nor
  \<^verbatim>\<open>//\<close> nor \<^verbatim>\<open>:\<close>, is returned in full.
\<close>

theorem unescaped_dot_matches_any_character:
  "(\<not> is_line_terminator x \<longrightarrow>
      getUrlAtTextEnd (js ''www'' @ x # js ''foo.com'') = Some (js ''www'' @ x # js ''foo.com''))
   \<and> getUrlAtTextEnd (js ''wwwXfoo.com'') = Some (js ''wwwXfoo.com'')
   \<and> \<not> prefix (js ''www.'') (js ''wwwXfoo.com'')
   \<and> 0x40 \<notin> set (js ''wwwXfoo.com'')
   \<and> 0x3A \<notin> set (js ''wwwXfoo.com'')
   \<and> \<not> sublist (js ''//'') (js ''wwwXfoo.com'')"
proof -
  have general: "getUrlAtTextEnd (js ''www'' @ x # js ''foo.com'') = Some (js ''www'' @ x # js ''foo.com'')"
    if "\<not> is_line_terminator x"
    using that
    by (simp add: getUrlAtTextEnd_def URL_REG_EXP_exec_def URL_GROUP_IN_MATCH_def match_at_def
        URL_GROUP1_def URL_GROUP2_def full_form_def short_form_def scheme_def str_def ch_def
        Opt_def Plus_def Star_def host_chars_def tld_chars_def rng_def one_def class_mem_def
        in_ranges_def to_upper_def to_lower_def is_digit_def js_def rmatch.simps(9))
  have example: "getUrlAtTextEnd (js ''wwwXfoo.com'') = Some (js ''wwwXfoo.com'')
     \<and> \<not> prefix (js ''www.'') (js ''wwwXfoo.com'')
     \<and> 0x40 \<notin> set (js ''wwwXfoo.com'')
     \<and> 0x3A \<notin> set (js ''wwwXfoo.com'')
     \<and> \<not> sublist (js ''//'') (js ''wwwXfoo.com'')"
    by code_simp
  from general example show ?thesis by blast
qed

theorem unescaped_dot_matches_any_character_witness:
  "\<not> is_line_terminator 0x2D
   \<and> getUrlAtTextEnd (js ''www-foo.com'') = Some (js ''www-foo.com'')"
  using unescaped_dot_matches_any_character [of "0x2D"]
  by (simp add: is_line_terminator_def js_def)

end
